theory Spec2Isabelle
  imports Complex_Main "HOL-Library.Signed_Division"
begin

section \<open>Go values used by package duration\<close>

subsection \<open>float64\<close>

text \<open>
  A finite float64 is a rational number; every floating-point operation of the source is
  the exact operation followed by \<open>fl\<close>, rounding to the nearest double (53-bit
  significand, ties to even, subnormals below \<open>2 ^ - 1022\<close>), as IEEE 754 and the Go
  specification prescribe for amd64 (no fused multiply-add). NaN and the infinities do not
  arise in this package except as the overflow of \<open>strconv.ParseFloat\<close>, which is an
  error there. The sign of a zero is not represented: the template prints a float
  only when it is non-zero.
\<close>

type_synonym float64 = rat

text \<open>The number of binary digits of a positive integer.\<close>

function bitlen :: "int \<Rightarrow> int" where
  "bitlen n = (if n \<le> 0 then 0 else 1 + bitlen (n div 2))"
  by auto

termination
  by (relation "measure nat") auto

declare bitlen.simps [simp del]

text \<open>\<open>ilog2 x\<close> is the exponent \<open>e\<close> with \<open>2 ^ e \<le> x < 2 ^ (e + 1)\<close>, for \<open>0 < x\<close>.\<close>

definition ilog2 :: "rat \<Rightarrow> int" where
  "ilog2 x = (if 1 \<le> x then bitlen \<lfloor>x\<rfloor> - 1 else - bitlen (\<lceil>1 / x\<rceil> - 1))"

definition pow2 :: "int \<Rightarrow> rat" where
  "pow2 e = (if 0 \<le> e then 2 ^ nat e else 1 / 2 ^ nat (- e))"

text \<open>Round to the nearest integer, ties to even.\<close>

definition rne :: "rat \<Rightarrow> int" where
  "rne x = (let f = \<lfloor>x\<rfloor>; r = x - of_int f in
            if r < 1 / 2 then f else if 1 / 2 < r then f + 1
            else if even f then f else f + 1)"

definition fl :: "rat \<Rightarrow> float64" where
  "fl x = (if x = 0 then 0 else
            let q = max (ilog2 \<bar>x\<bar> - 52) (- 1074)
            in of_int (rne (x / pow2 q)) * pow2 q)"

text \<open>\<open>math.Trunc\<close>, \<open>math.Floor\<close> and \<open>math.Mod\<close> are exact. \<open>math.Mod x y\<close> has
  the sign of \<open>x\<close>; the package calls it with a non-zero constant \<open>y\<close> only.\<close>

definition trunc_int :: "rat \<Rightarrow> int" where
  "trunc_int x = (if 0 \<le> x then \<lfloor>x\<rfloor> else \<lceil>x\<rceil>)"

definition math_Trunc :: "float64 \<Rightarrow> float64" where
  "math_Trunc x = of_int (trunc_int x)"

definition math_Floor :: "float64 \<Rightarrow> float64" where
  "math_Floor x = of_int \<lfloor>x\<rfloor>"

definition math_Mod :: "float64 \<Rightarrow> float64 \<Rightarrow> float64" where
  "math_Mod x y = x - \<bar>y\<bar> * of_int (trunc_int (x / \<bar>y\<bar>))"

subsection \<open>int64 and time.Duration\<close>

text \<open>
  An int64 is an integer \<open>i\<close> with \<open>is_int64 i\<close>; \<open>time.Duration\<close> is an int64 count
  of nanoseconds. \<open>+\<close> and \<open>*\<close> wrap around (\<open>wrap64\<close> of the exact result), \<open>/\<close> and
  \<open>%\<close> truncate towards zero (the package divides by positive constants only).
\<close>

type_synonym int64 = int

type_synonym duration = int64

definition is_int64 :: "int \<Rightarrow> bool" where
  "is_int64 i = (- (2 ^ 63) \<le> i \<and> i < 2 ^ 63)"

definition wrap64 :: "int \<Rightarrow> int64" where
  "wrap64 i = (i + 2 ^ 63) mod 2 ^ 64 - 2 ^ 63"

definition add64 :: "int64 \<Rightarrow> int64 \<Rightarrow> int64" where
  "add64 a b = wrap64 (a + b)"

definition mul64 :: "int64 \<Rightarrow> int64 \<Rightarrow> int64" where
  "mul64 a b = wrap64 (a * b)"

definition int64_quo :: "int64 \<Rightarrow> int64 \<Rightarrow> int64" where
  "int64_quo a b = wrap64 (a sdiv b)"

definition int64_rem :: "int64 \<Rightarrow> int64 \<Rightarrow> int64" where
  "int64_rem a b = a smod b"

text \<open>\<open>float64(i)\<close> for an int64 \<open>i\<close> rounds to the nearest double.\<close>

definition float64_of_int64 :: "int64 \<Rightarrow> float64" where
  "float64_of_int64 i = fl (of_int i)"

text \<open>\<open>int64(x)\<close>, \<open>int(x)\<close> and \<open>time.Duration(x)\<close> for a float64 \<open>x\<close>: the fraction is
  discarded; a value outside int64 is implementation-dependent in Go, and on amd64 it is
  the result of CVTTSD2SQ, the smallest int64.\<close>

definition int64_of_float64 :: "float64 \<Rightarrow> int64" where
  "int64_of_float64 x = (let t = trunc_int x in if is_int64 t then t else - (2 ^ 63))"

definition Nanosecond :: duration where "Nanosecond = 1"
definition Microsecond :: duration where "Microsecond = 1000 * Nanosecond"
definition Millisecond :: duration where "Millisecond = 1000 * Microsecond"
definition Second :: duration where "Second = 1000 * Millisecond"
definition Minute :: duration where "Minute = 60 * Second"
definition Hour :: duration where "Hour = 60 * Minute"
definition Day :: duration where "Day = Hour * 24"
definition Week :: duration where "Week = Day * 7"
definition Month :: duration where "Month = Day * 30"
definition Year :: duration where "Year = Day * 365"

text \<open>\<open>time.Duration.Nanoseconds\<close> and \<open>time.Duration.Minutes\<close> of package time.\<close>

definition time_Nanoseconds :: "duration \<Rightarrow> int64" where
  "time_Nanoseconds d = d"

definition time_Minutes :: "duration \<Rightarrow> float64" where
  "time_Minutes d = (let min = int64_quo d Minute; nsec = int64_rem d Minute in
     fl (float64_of_int64 min + fl (float64_of_int64 nsec / fl (60 * 1000000000))))"

section \<open>Accessors\<close>

definition Years :: "duration \<Rightarrow> float64" where
  "Years d = (let x = float64_of_int64 (int64_quo d Year) in math_Floor x)"

definition Days :: "duration \<Rightarrow> float64" where
  "Days d = (let x = float64_of_int64 (int64_quo d Day); y = float64_of_int64 (int64_quo Year Day)
             in math_Mod x y)"

definition Weeks :: "duration \<Rightarrow> float64" where
  "Weeks d = (let x = Days d; y = float64_of_int64 (int64_quo Week Day) in
              if math_Mod x y > 0 then 0 else fl (x / y))"

definition Hours :: "duration \<Rightarrow> float64" where
  "Hours d = (let x = float64_of_int64 (int64_quo d Hour); y = float64_of_int64 (int64_quo Day Hour)
              in math_Mod x y)"

definition Minutes :: "duration \<Rightarrow> float64" where
  "Minutes d = (let x = float64_of_int64 (int64_quo d Minute);
                    y = float64_of_int64 (int64_quo Hour Minute)
                in math_Mod x y)"

definition Seconds :: "duration \<Rightarrow> float64" where
  "Seconds d =
     fl (fl (float64_of_int64 (time_Nanoseconds d)
             - fl (math_Trunc (time_Minutes d) * float64_of_int64 Minute))
         / float64_of_int64 Second)"

definition IsZero :: "duration \<Rightarrow> bool" where
  "IsZero d = (d = 0)"

definition IsWeeksOnly :: "duration \<Rightarrow> bool" where
  "IsWeeksOnly d = (mul64 (int64_of_float64 (Weeks d)) Week = d)"

definition HasTimePart :: "duration \<Rightarrow> bool" where
  "HasTimePart d = (Hours d \<noteq> 0 \<or> Minutes d \<noteq> 0 \<or> Seconds d \<noteq> 0)"

definition ToDuration :: "duration \<Rightarrow> duration" where
  "ToDuration d = d"


section \<open>strconv and fmt\<close>

definition is_digit :: "char \<Rightarrow> bool" where
  "is_digit c = (c \<in> set ''0123456789'')"

definition digit_val :: "char \<Rightarrow> int" where
  "digit_val c = of_char c - 48"

definition digit_char :: "nat \<Rightarrow> char" where
  "digit_char n = ''0123456789'' ! n"

definition dec_value :: "string \<Rightarrow> int" where
  "dec_value ds = foldl (\<lambda>a c. 10 * a + digit_val c) 0 ds"

datatype num_error = ErrSyntax | ErrRange

text \<open>
  \<open>strconv.ParseFloat(s, 64)\<close> on the texts the two patterns can capture, which consist
  of decimal digits and dots: digits with at most one dot and at least one digit; the
  result is the double nearest to the decimal (\<open>ErrRange\<close> when that is infinite),
  and every other text is a syntax error. Signs, exponents, hexadecimal literals,
  underscores, \<open>inf\<close> and \<open>nan\<close> cannot reach it from this package.
\<close>

definition ParseFloat :: "string \<Rightarrow> num_error + float64" where
  "ParseFloat s =
    (let ip = takeWhile is_digit s; r = dropWhile is_digit s;
         fp = (case r of [] \<Rightarrow> [] | c # r' \<Rightarrow>
                 if c = CHR ''.'' then takeWhile is_digit r' else []);
         rest = (case r of [] \<Rightarrow> [] | c # r' \<Rightarrow>
                 if c = CHR ''.'' then dropWhile is_digit r' else r)
     in if ip = [] \<and> fp = [] then Inl ErrSyntax
        else if rest \<noteq> [] then Inl ErrSyntax
        else let v = fl (of_int (dec_value (ip @ fp)) / 10 ^ length fp)
             in if v \<noteq> 0 \<and> 1024 \<le> ilog2 v then Inl ErrRange else Inr v)"

text \<open>The number of decimal digits of a positive integer, and the decimal exponent
  \<open>e\<close> with \<open>10 ^ e \<le> x < 10 ^ (e + 1)\<close> of \<open>0 < x\<close>.\<close>

function declen :: "int \<Rightarrow> int" where
  "declen n = (if n \<le> 0 then 0 else 1 + declen (n div 10))"
  by auto

termination
  by (relation "measure nat") auto

declare declen.simps [simp del]

definition ilog10 :: "rat \<Rightarrow> int" where
  "ilog10 x = (if 1 \<le> x then declen \<lfloor>x\<rfloor> - 1 else - declen (\<lceil>1 / x\<rceil> - 1))"

definition pow10 :: "int \<Rightarrow> rat" where
  "pow10 e = (if 0 \<le> e then 10 ^ nat e else 1 / 10 ^ nat (- e))"

function digits_of :: "int \<Rightarrow> string" where
  "digits_of n = (if n < 10 then [digit_char (nat n)]
                  else digits_of (n div 10) @ [digit_char (nat (n mod 10))])"
  by auto

termination
  by (relation "measure nat") auto

declare digits_of.simps [simp del]

text \<open>
  \<open>strconv.FormatFloat(x, 'g', -1, 64)\<close>, which is how \<open>fmt\<close> prints a float64 under
  \<open>%v\<close>: the least number of significant digits \<open>n\<close> for which a decimal \<open>m * 10 ^ e\<close>
  of \<open>n\<close> digits parses back to \<open>x\<close>, and the one nearest to \<open>x\<close> of these; 17
  digits always do. The exponent form \<open>d.ddde-xx\<close> is used when the decimal exponent
  is below \<open>-4\<close> or at least 6 (so \<open>1e+06\<close> and \<open>1e-09\<close>), the plain form otherwise.
\<close>

definition dec_candidate :: "rat \<Rightarrow> nat \<Rightarrow> (int \<times> int) option" where
  "dec_candidate x n =
    (let e = ilog10 x - int n + 1; y = x / pow10 e; lo = \<lfloor>y\<rfloor>; hi = lo + 1;
         oklo = (fl (of_int lo * pow10 e) = x); okhi = (fl (of_int hi * pow10 e) = x)
     in if oklo \<and> (\<not> okhi \<or> y - of_int lo \<le> of_int hi - y) then Some (lo, e)
        else if okhi then Some (hi, e) else None)"

fun shortest_search :: "rat \<Rightarrow> nat \<Rightarrow> nat \<Rightarrow> int \<times> int" where
  "shortest_search x n 0 = (rne (x / pow10 (ilog10 x - int n + 1)), ilog10 x - int n + 1)"
| "shortest_search x n (Suc k) =
     (case dec_candidate x n of Some c \<Rightarrow> c | None \<Rightarrow> shortest_search x (Suc n) k)"

text \<open>The digits \<open>d\<^sub>1 \<dots> d\<^sub>n\<close> without trailing zeros and the position \<open>dp\<close> of the
  decimal point: the value is \<open>0.d\<^sub>1 \<dots> d\<^sub>n * 10 ^ dp\<close>.\<close>

definition shortest_digits :: "rat \<Rightarrow> string \<times> int" where
  "shortest_digits x =
    (case shortest_search x 1 16 of (m, e) \<Rightarrow>
       let ds = digits_of m
       in (rev (dropWhile (\<lambda>c. c = CHR ''0'') (rev ds)), int (length ds) + e))"

definition fmtE :: "string \<Rightarrow> int \<Rightarrow> string" where
  "fmtE ds dp =
    (let ex = dp - 1 in
       [hd ds] @ (if 1 < length ds then CHR ''.'' # tl ds else [])
       @ ''e'' @ (if ex < 0 then ''-'' else ''+'')
       @ (if \<bar>ex\<bar> < 10 then CHR ''0'' # digits_of \<bar>ex\<bar> else digits_of \<bar>ex\<bar>))"

definition fmtF :: "string \<Rightarrow> int \<Rightarrow> string" where
  "fmtF ds dp =
    (if 0 < dp then take (nat dp) ds @ replicate (nat dp - length ds) (CHR ''0'') else ''0'')
    @ (if dp < int (length ds)
       then CHR ''.'' # replicate (nat (- dp)) (CHR ''0'') @ drop (nat dp) ds else [])"

definition FormatFloat :: "float64 \<Rightarrow> string" where
  "FormatFloat x =
    (if x = 0 then ''0'' else
       (if x < 0 then ''-'' else [])
       @ (case shortest_digits \<bar>x\<bar> of (ds, dp) \<Rightarrow>
            if dp - 1 < - 4 \<or> 6 \<le> dp - 1 then fmtE ds dp else fmtF ds dp))"


section \<open>regexp\<close>

text \<open>
  The fragment of Go's regular expressions the two patterns use: a literal character, a
  greedy \<open>+\<close> over a character class, concatenation, a greedy \<open>?\<close>, and a capture group
  with its index and name (the empty name for an unnamed group).
\<close>

datatype regex =
    Lit char
  | PlusClass "char list"
  | Cat regex regex
  | Opt regex
  | Group nat string regex

text \<open>
  All the ways a pattern matches at the start of the input, in the order of preference of
  Go's leftmost-first matching: a greedy operator prefers the longer match. A state is the
  rest of the input and the text of every group, by its index.
\<close>

fun plus_class :: "char list \<Rightarrow> string \<Rightarrow> string list" where
  "plus_class cs [] = []"
| "plus_class cs (c # s) = (if c \<in> set cs then plus_class cs s @ [s] else [])"

type_synonym captures = "nat \<Rightarrow> string"

fun rmatch :: "regex \<Rightarrow> string \<times> captures \<Rightarrow> (string \<times> captures) list" where
  "rmatch (Lit c) (s, caps) =
     (case s of [] \<Rightarrow> [] | x # xs \<Rightarrow> if x = c then [(xs, caps)] else [])"
| "rmatch (PlusClass cs) (s, caps) = map (\<lambda>s'. (s', caps)) (plus_class cs s)"
| "rmatch (Cat a b) st = concat (map (rmatch b) (rmatch a st))"
| "rmatch (Opt a) st = rmatch a st @ [st]"
| "rmatch (Group i name a) (s, caps) =
     map (\<lambda>(s', caps'). (s', caps'(i := take (length s - length s') s))) (rmatch a (s, caps))"

fun group_names :: "regex \<Rightarrow> string list" where
  "group_names (Lit c) = []"
| "group_names (PlusClass cs) = []"
| "group_names (Cat a b) = group_names a @ group_names b"
| "group_names (Opt a) = group_names a"
| "group_names (Group i name a) = name # group_names a"

definition SubexpNames :: "regex \<Rightarrow> string list" where
  "SubexpNames re = [] # group_names re"

text \<open>\<open>FindStringSubmatch\<close>: the leftmost match, the preferred one at that position;
  element 0 is the text of the whole match, element \<open>i\<close> the text of group \<open>i\<close>, empty
  for a group that took no part in the match. \<open>None\<close> is Go's \<open>nil\<close>.\<close>

fun FindStringSubmatch :: "regex \<Rightarrow> string \<Rightarrow> string list option" where
  "FindStringSubmatch re s =
     (case rmatch re (s, \<lambda>i. []) of
        (s', caps) # _ \<Rightarrow>
          Some (map (caps(0 := take (length s - length s') s)) [0 ..< length (SubexpNames re)])
      | [] \<Rightarrow> (case s of [] \<Rightarrow> None | _ # t \<Rightarrow> FindStringSubmatch re t))"

declare FindStringSubmatch.simps [simp del]

definition MatchString :: "regex \<Rightarrow> string \<Rightarrow> bool" where
  "MatchString re s = (FindStringSubmatch re s \<noteq> None)"

section \<open>The patterns\<close>

definition digit_class :: "char list" where
  "digit_class = ''0123456789''"

definition digit_dot_class :: "char list" where
  "digit_dot_class = ''0123456789.''"

text \<open>\<^verbatim>\<open>((?P<name>\d+)c)?\<close> with the outer group \<open>i\<close> and the named group \<open>i + 1\<close>.\<close>

definition field :: "nat \<Rightarrow> string \<Rightarrow> char list \<Rightarrow> char \<Rightarrow> regex" where
  "field i name cls c = Opt (Group i [] (Cat (Group (i + 1) name (PlusClass cls)) (Lit c)))"

text \<open>\<^verbatim>\<open>P((?P<year>\d+)Y)?((?P<month>\d+)M)?((?P<day>\d+)D)?(T((?P<hour>\d+)H)?((?P<minute>\d+)M)?((?P<second>[\d\.]+)S)?)?\<close>\<close>

definition full :: regex where
  "full =
    Cat (Lit CHR ''P'')
   (Cat (field 1 ''year'' digit_class CHR ''Y'')
   (Cat (field 3 ''month'' digit_class CHR ''M'')
   (Cat (field 5 ''day'' digit_class CHR ''D'')
        (Opt (Group 7 []
          (Cat (Lit CHR ''T'')
          (Cat (field 8 ''hour'' digit_class CHR ''H'')
          (Cat (field 10 ''minute'' digit_class CHR ''M'')
               (field 12 ''second'' digit_dot_class CHR ''S'')))))))))"

text \<open>\<^verbatim>\<open>P((?P<week>\d+)W)\<close>\<close>

definition week :: regex where
  "week = Cat (Lit CHR ''P'')
              (Group 1 [] (Cat (Group 2 ''week'' (PlusClass digit_class)) (Lit CHR ''W'')))"

section \<open>ParseString\<close>

datatype json_error = JSONEOF | JSONSyntax | JSONNotAString

datatype error =
    ErrBadFormat
  | NumError string num_error
  | UnknownField string
  | JSONError json_error

text \<open>One iteration of the \<open>switch\<close> on the name of the group.\<close>

definition add_field :: "string \<Rightarrow> float64 \<Rightarrow> duration \<Rightarrow> error + duration" where
  "add_field name val d =
    (if name = ''year'' then Inr (add64 d (mul64 (int64_of_float64 val) Year))
     else if name = ''month'' then Inr (add64 d (mul64 (int64_of_float64 val) Month))
     else if name = ''week'' then Inr (add64 d (mul64 (int64_of_float64 val) Week))
     else if name = ''day'' then Inr (add64 d (mul64 (int64_of_float64 val) Day))
     else if name = ''hour'' then Inr (add64 d (mul64 (int64_of_float64 val) Hour))
     else if name = ''minute'' then Inr (add64 d (mul64 (int64_of_float64 val) Minute))
     else if name = ''second'' then
       (let d1 = add64 d (mul64 (int64_of_float64 val) Second);
            val1 = fl (fl (val - math_Trunc val) * 1000);
            d2 = add64 d1 (mul64 (int64_of_float64 val1) Millisecond);
            val2 = fl (fl (val1 - math_Trunc val1) * 1000);
            d3 = add64 d2 (mul64 (int64_of_float64 val2) Microsecond);
            val3 = fl (fl (val2 - math_Trunc val2) * 1000);
            d4 = add64 d3 (mul64 (int64_of_float64 val3) Nanosecond)
        in Inr d4)
     else Inl (UnknownField name))"

text \<open>The loop over \<open>re.SubexpNames()\<close>: the index, the name and \<open>match[i]\<close>.\<close>

fun parse_loop :: "(nat \<times> string \<times> string) list \<Rightarrow> duration \<Rightarrow> error + duration" where
  "parse_loop [] d = Inr d"
| "parse_loop ((i, name, part) # rest) d =
     (if i = 0 \<or> name = [] \<or> part = [] then parse_loop rest d
      else case ParseFloat part of
             Inl e \<Rightarrow> Inl (NumError part e)
           | Inr val \<Rightarrow>
               (case add_field name val d of
                  Inl e \<Rightarrow> Inl e
                | Inr d' \<Rightarrow> parse_loop rest d'))"

definition parse_match :: "regex \<Rightarrow> string list \<Rightarrow> error + duration" where
  "parse_match re match =
     parse_loop (zip [0 ..< length (SubexpNames re)] (zip (SubexpNames re) match)) 0"

definition ParseString :: "string \<Rightarrow> error + duration" where
  "ParseString dur =
    (if MatchString week dur then parse_match week (the (FindStringSubmatch week dur))
     else if MatchString full dur then parse_match full (the (FindStringSubmatch full dur))
     else Inl ErrBadFormat)"

section \<open>String\<close>

text \<open>
  The fragment of text/template the template uses. A pipeline is a method of the
  Duration or the builtin \<open>and\<close>; its value is a bool or a float64; \<open>if\<close> takes the
  branch of a value that is not empty (\<open>true\<close>, a non-zero number); an action prints its
  value as \<open>fmt.Fprint\<close> does.
\<close>

datatype tvalue = VBool bool | VFloat float64

datatype pipeline = Method string | And pipeline pipeline

datatype node = Text string | Action pipeline | If pipeline "node list" "node list"

definition call_method :: "string \<Rightarrow> duration \<Rightarrow> tvalue" where
  "call_method name d =
    (if name = ''IsZero'' then VBool (IsZero d)
     else if name = ''IsWeeksOnly'' then VBool (IsWeeksOnly d)
     else if name = ''HasTimePart'' then VBool (HasTimePart d)
     else if name = ''Years'' then VFloat (Years d)
     else if name = ''Weeks'' then VFloat (Weeks d)
     else if name = ''Days'' then VFloat (Days d)
     else if name = ''Hours'' then VFloat (Hours d)
     else if name = ''Minutes'' then VFloat (Minutes d)
     else VFloat (Seconds d))"

fun truth :: "tvalue \<Rightarrow> bool" where
  "truth (VBool b) = b"
| "truth (VFloat x) = (x \<noteq> 0)"

fun print_value :: "tvalue \<Rightarrow> string" where
  "print_value (VBool b) = (if b then ''true'' else ''false'')"
| "print_value (VFloat x) = FormatFloat x"

fun eval_pipeline :: "pipeline \<Rightarrow> duration \<Rightarrow> tvalue" where
  "eval_pipeline (Method name) d = call_method name d"
| "eval_pipeline (And p q) d =
     (let v = eval_pipeline p d in if truth v then eval_pipeline q d else v)"

fun exec :: "node \<Rightarrow> duration \<Rightarrow> string" where
  "exec (Text s) d = s"
| "exec (Action p) d = print_value (eval_pipeline p d)"
| "exec (If p yes no) d =
     (if truth (eval_pipeline p d) then concat (map (\<lambda>n. exec n d) yes)
      else concat (map (\<lambda>n. exec n d) no))"

text \<open>\<^verbatim>\<open>{{if .X}}{{.X}}c{{end}}\<close>\<close>

definition part :: "string \<Rightarrow> string \<Rightarrow> node" where
  "part name c = If (Method name) [Action (Method name), Text c] []"

text \<open>\<^verbatim>\<open>P{{if .IsZero}}0D{{else}}{{if and .Weeks .IsWeeksOnly}}{{.Weeks}}W{{else}}{{if .Years}}{{.Years}}Y{{end}}{{if .Days}}{{.Days}}D{{end}}{{if .HasTimePart}}T{{if .Hours}}{{.Hours}}H{{end}}{{if .Minutes}}{{.Minutes}}M{{end}}{{if .Seconds}}{{.Seconds}}S{{end}}{{end}}{{end}}{{end}}\<close>\<close>

definition tmpl :: "node list" where
  "tmpl =
    [Text ''P'',
     If (Method ''IsZero'') [Text ''0D'']
      [If (And (Method ''Weeks'') (Method ''IsWeeksOnly''))
        [Action (Method ''Weeks''), Text ''W'']
        [part ''Years'' ''Y'',
         part ''Days'' ''D'',
         If (Method ''HasTimePart'')
           [Text ''T'', part ''Hours'' ''H'', part ''Minutes'' ''M'', part ''Seconds'' ''S'']
           []]]]"

definition String :: "duration \<Rightarrow> string" where
  "String d = concat (map (\<lambda>n. exec n d) tmpl)"


section \<open>JSON\<close>

text \<open>
  \<open>json.Encoder.Encode\<close> of a string: the quoted string and a newline. With the default
  HTML escaping, a quote and a backslash get a backslash, the control characters and
  \<open><\<close>, \<open>>\<close>, \<open>&\<close> are written as escapes, and every other byte is copied (the
  text is assumed to be well-formed UTF-8 without U+2028 and U+2029; \<open>String\<close> renders
  ASCII only).
\<close>

definition hex_char :: "nat \<Rightarrow> char" where
  "hex_char n = ''0123456789abcdef'' ! n"

definition encode_char :: "char \<Rightarrow> string" where
  "encode_char c =
    (if c = CHR 0x22 then [CHR 0x5C, CHR 0x22]
     else if c = CHR 0x5C then [CHR 0x5C, CHR 0x5C]
     else if c = CHR 0x08 then [CHR 0x5C, CHR ''b'']
     else if c = CHR 0x0C then [CHR 0x5C, CHR ''f'']
     else if c = CHR 0x0A then [CHR 0x5C, CHR ''n'']
     else if c = CHR 0x0D then [CHR 0x5C, CHR ''r'']
     else if c = CHR 0x09 then [CHR 0x5C, CHR ''t'']
     else if (of_char c :: nat) < 32 \<or> c \<in> set ''<>&''
       then [CHR 0x5C, CHR ''u'', CHR ''0'', CHR ''0'',
             hex_char ((of_char c :: nat) div 16), hex_char ((of_char c :: nat) mod 16)]
     else [c])"

definition json_Encode :: "string \<Rightarrow> string" where
  "json_Encode s = [CHR 0x22] @ concat (map encode_char s) @ [CHR 0x22] @ [CHR 0x0A]"

text \<open>
  \<open>json.Decoder.Decode\<close> into a string variable that holds \<open>""\<close>: white space is
  skipped and one value is read, whatever follows it; a string literal is unquoted,
  \<open>null\<close> leaves the variable as it is, the end of the input is \<open>io.EOF\<close>, and a
  malformed literal is a syntax error. Any other first character starts a value that is
  not a string or is malformed: both are the error \<open>JSONNotAString\<close> here. Bytes above
  0x7F are copied (the input is assumed to be well-formed UTF-8).
\<close>

definition is_space :: "char \<Rightarrow> bool" where
  "is_space c = (c = CHR 0x20 \<or> c = CHR 0x09 \<or> c = CHR 0x0D \<or> c = CHR 0x0A)"

definition hex_val :: "char \<Rightarrow> nat option" where
  "hex_val c =
    (let n = (of_char c :: nat) in
     if 48 \<le> n \<and> n \<le> 57 then Some (n - 48)
     else if 97 \<le> n \<and> n \<le> 102 then Some (n - 87)
     else if 65 \<le> n \<and> n \<le> 70 then Some (n - 55)
     else None)"

text \<open>\<open>getu4\<close>: the code unit of \<^verbatim>\<open>\uXXXX\<close> at the start of the text.\<close>

definition getu4 :: "string \<Rightarrow> nat option" where
  "getu4 s =
    (case s of
       b # u # h1 # h2 # h3 # h4 # _ \<Rightarrow>
         if b = CHR 0x5C \<and> u = CHR ''u'' then
           (case (hex_val h1, hex_val h2, hex_val h3, hex_val h4) of
              (Some a, Some b, Some c, Some d) \<Rightarrow> Some (((a * 16 + b) * 16 + c) * 16 + d)
            | _ \<Rightarrow> None)
         else None
     | _ \<Rightarrow> None)"

definition utf8_encode :: "nat \<Rightarrow> string" where
  "utf8_encode n =
    (if n < 0x80 then [char_of n]
     else if n < 0x800 then [char_of (0xC0 + n div 64), char_of (0x80 + n mod 64)]
     else if n < 0x10000 then
       [char_of (0xE0 + n div 4096), char_of (0x80 + n div 64 mod 64), char_of (0x80 + n mod 64)]
     else [char_of (0xF0 + n div 262144), char_of (0x80 + n div 4096 mod 64),
           char_of (0x80 + n div 64 mod 64), char_of (0x80 + n mod 64)])"

definition escape_char :: "char \<Rightarrow> char option" where
  "escape_char e =
    (if e = CHR 0x22 \<or> e = CHR 0x5C \<or> e = CHR ''/'' then Some e
     else if e = CHR ''b'' then Some (CHR 0x08)
     else if e = CHR ''f'' then Some (CHR 0x0C)
     else if e = CHR ''n'' then Some (CHR 0x0A)
     else if e = CHR ''r'' then Some (CHR 0x0D)
     else if e = CHR ''t'' then Some (CHR 0x09)
     else None)"

text \<open>The text of a string literal after its opening quote, up to the closing one.\<close>

function unquote :: "string \<Rightarrow> string option" where
  "unquote [] = None"
| "unquote (c # s) =
    (if c = CHR 0x22 then Some []
     else if c = CHR 0x5C then
       (case s of
          [] \<Rightarrow> None
        | e # s' \<Rightarrow>
            if e = CHR ''u'' then
              (case getu4 (c # s) of
                 None \<Rightarrow> None
               | Some r \<Rightarrow>
                   if 0xD800 \<le> r \<and> r < 0xE000 then
                     (case getu4 (drop 5 s) of
                        Some r1 \<Rightarrow>
                          if r < 0xDC00 \<and> 0xDC00 \<le> r1 \<and> r1 < 0xE000
                          then map_option
                                 ((@) (utf8_encode (0x10000 + (r - 0xD800) * 1024 + (r1 - 0xDC00))))
                                 (unquote (drop 11 s))
                          else map_option ((@) (utf8_encode 0xFFFD)) (unquote (drop 5 s))
                      | None \<Rightarrow> map_option ((@) (utf8_encode 0xFFFD)) (unquote (drop 5 s)))
                   else map_option ((@) (utf8_encode r)) (unquote (drop 5 s)))
            else (case escape_char e of
                    None \<Rightarrow> None
                  | Some x \<Rightarrow> map_option ((#) x) (unquote s')))
     else if (of_char c :: nat) < 32 then None
     else map_option ((#) c) (unquote s))"
  by pat_completeness auto

termination
  by (relation "measure length") auto

declare unquote.simps [simp del]

fun json_Decode :: "string \<Rightarrow> json_error + string" where
  "json_Decode [] = Inl JSONEOF"
| "json_Decode (c # s) =
    (if is_space c then json_Decode s
     else if c = CHR 0x22 then
       (case unquote s of None \<Rightarrow> Inl JSONSyntax | Some t \<Rightarrow> Inr t)
     else if take 4 (c # s) = ''null'' then Inr []
     else Inl JSONNotAString)"

text \<open>\<open>UnmarshalJSON\<close> returns its error and the receiver after the call.\<close>

definition UnmarshalJSON :: "duration \<Rightarrow> string \<Rightarrow> error option \<times> duration" where
  "UnmarshalJSON d data =
    (case json_Decode data of
       Inl err \<Rightarrow> (Some (JSONError err), d)
     | Inr s \<Rightarrow>
         (case ParseString s of
            Inl err \<Rightarrow> (Some err, d)
          | Inr t \<Rightarrow> (None, t)))"

definition MarshalJSON :: "duration \<Rightarrow> string \<times> error option" where
  "MarshalJSON d = (let s = String d in (json_Encode s, None))"

section \<open>Notions for the proofs\<close>

text \<open>
  \<open>lead cls s\<close> is the character that ends the non-empty run of characters of the class
  \<open>cls\<close> at the start of \<open>s\<close>; \<open>fstep\<close> is the effect of one optional field of a
  pattern on a state, \<open>tstep\<close> that of the optional time part; \<open>first\<close> is the preferred
  match at the start of the input.
\<close>

definition lead :: "char list \<Rightarrow> string \<Rightarrow> char option" where
  "lead cls s =
    (if takeWhile (\<lambda>x. x \<in> set cls) s = [] then None
     else case dropWhile (\<lambda>x. x \<in> set cls) s of [] \<Rightarrow> None | x # _ \<Rightarrow> Some x)"

definition fstep :: "nat \<Rightarrow> char list \<Rightarrow> char \<Rightarrow> string \<times> captures \<Rightarrow> string \<times> captures" where
  "fstep i cls c st =
    (if lead cls (fst st) = Some c
     then (tl (dropWhile (\<lambda>x. x \<in> set cls) (fst st)),
           (snd st)(i + 1 := takeWhile (\<lambda>x. x \<in> set cls) (fst st),
                    i := takeWhile (\<lambda>x. x \<in> set cls) (fst st) @ [c]))
     else st)"

definition first :: "regex \<Rightarrow> string \<times> captures \<Rightarrow> (string \<times> captures) option" where
  "first re st = (case rmatch re st of [] \<Rightarrow> None | x # _ \<Rightarrow> Some x)"

definition always :: "regex \<Rightarrow> bool" where
  "always re = (\<forall>st. rmatch re st \<noteq> [])"

definition tstep :: "string \<times> captures \<Rightarrow> string \<times> captures" where
  "tstep st =
    (case fst st of
       [] \<Rightarrow> st
     | x # t \<Rightarrow>
         if x = CHR ''T'' then
           (case fstep 12 digit_dot_class CHR ''S''
                   (fstep 10 digit_class CHR ''M'' (fstep 8 digit_class CHR ''H'' (t, snd st))) of
              (s', caps') \<Rightarrow> (s', caps'(7 := take (length (fst st) - length s') (fst st))))
         else st)"

text \<open>
  The text the template renders for a whole number \<open>n\<close> with its designator
  (\<open>optf\<close>, nothing for 0), the digits alone (\<open>optd\<close>), and the text after \<open>P\<close>
  of a Duration that is not a number of weeks (\<open>body\<close>).
\<close>

definition optf :: "int \<Rightarrow> char \<Rightarrow> string" where
  "optf n c = (if n \<noteq> 0 then digits_of n @ [c] else [])"

definition body :: "int \<Rightarrow> int \<Rightarrow> int \<Rightarrow> int \<Rightarrow> int \<Rightarrow> string" where
  "body Y D H M S =
     optf Y CHR ''Y'' @ optf D CHR ''D'' @
     (if H \<noteq> 0 \<or> M \<noteq> 0 \<or> S \<noteq> 0
      then CHR ''T'' # optf H CHR ''H'' @ optf M CHR ''M'' @ optf S CHR ''S'' else [])"

definition optd :: "int \<Rightarrow> string" where
  "optd n = (if n \<noteq> 0 then digits_of n else [])"

section \<open>Properties of the float64 model\<close>

lemma pow2_powi: "pow2 e = 2 powi e"
  by (simp add: pow2_def power_int_def field_simps)

lemma bitlen_pos: "0 < n \<Longrightarrow> 1 \<le> bitlen n \<and> 2 ^ nat (bitlen n - 1) \<le> n \<and> n < 2 ^ nat (bitlen n)"
proof (induction n rule: bitlen.induct)
  case (1 n)
  show ?case
  proof (cases "n = 1")
    case True
    have "bitlen 1 = 1" by (simp add: bitlen.simps)
    with True show ?thesis by simp
  next
    case False
    with 1 have pos: "0 < n div 2" by simp
    have nle: "\<not> n \<le> 0" using 1 by simp
    from 1(1)[OF nle pos] have ih: "1 \<le> bitlen (n div 2)" "2 ^ nat (bitlen (n div 2) - 1) \<le> n div 2"
        "n div 2 < 2 ^ nat (bitlen (n div 2))" by auto
    have b: "bitlen n = 1 + bitlen (n div 2)" using nle by (subst bitlen.simps) simp
    have e1: "nat (bitlen n - 1) = Suc (nat (bitlen (n div 2) - 1))" using ih(1) b by simp
    have e2: "nat (bitlen n) = Suc (nat (bitlen (n div 2)))" using ih(1) b by simp
    have d: "2 * (n div 2) \<le> n" "n < 2 * (n div 2) + 2" by presburger+
    show ?thesis using ih b d unfolding e1 e2 by auto
  qed
qed

lemma ilog2_bounds:
  assumes "0 < x"
  shows "2 powi (ilog2 x) \<le> x \<and> x < 2 powi (ilog2 x + 1)"
proof (cases "1 \<le> x")
  case True
  define n where "n = \<lfloor>x\<rfloor>"
  have n: "0 < n" using True by (simp add: n_def)
  note bl = bitlen_pos[OF n]
  have n1: "n + 1 \<le> 2 ^ nat (bitlen n)" using bl by linarith
  have e: "ilog2 x = bitlen n - 1" using True by (simp add: ilog2_def n_def)
  have "(2::rat) powi (bitlen n - 1) = of_int (2 ^ nat (bitlen n - 1))"
    using bl by (simp add: power_int_def)
  also have "\<dots> \<le> of_int n" using bl by (simp only: of_int_le_iff)
  also have "\<dots> \<le> x" by (simp add: n_def)
  finally have lo: "2 powi (ilog2 x) \<le> x" by (simp add: e)
  have "x < of_int (n + 1)" unfolding n_def by linarith
  also have "\<dots> \<le> of_int (2 ^ nat (bitlen n))" using n1 by (simp only: of_int_le_iff)
  also have "\<dots> = (2::rat) powi (bitlen n)" using bl by (simp add: power_int_def)
  finally show ?thesis using lo by (simp add: e)
next
  case False
  define y where "y = 1 / x"
  have y: "1 < y" using False assms by (simp add: y_def)
  define n where "n = \<lceil>y\<rceil> - 1"
  have n: "0 < n" using y unfolding n_def by linarith
  note bl = bitlen_pos[OF n]
  have n1: "n + 1 \<le> 2 ^ nat (bitlen n)" using bl by linarith
  have e: "ilog2 x = - bitlen n" using False by (simp add: ilog2_def n_def y_def)
  have "of_int (2 ^ nat (bitlen n - 1)) \<le> (of_int n :: rat)" using bl by (simp only: of_int_le_iff)
  also have "\<dots> < y" unfolding n_def by linarith
  finally have a: "(2::rat) ^ nat (bitlen n - 1) < y" by simp
  have "y \<le> of_int (n + 1)" unfolding n_def by simp
  also have "\<dots> \<le> of_int (2 ^ nat (bitlen n))" using n1 by (simp only: of_int_le_iff)
  finally have b: "y \<le> (2::rat) ^ nat (bitlen n)" by simp
  have x: "x = 1 / y" using assms by (simp add: y_def)
  have p1: "(2::rat) powi (- bitlen n) = 1 / 2 ^ nat (bitlen n)"
    using bl by (simp add: power_int_def field_simps)
  have p2: "(2::rat) powi (- bitlen n + 1) = 1 / 2 ^ nat (bitlen n - 1)"
    using bl by (simp add: power_int_def field_simps nat_diff_distrib)
  have "1 / 2 ^ nat (bitlen n) \<le> 1 / y" using b y by (simp add: field_simps)
  then have r1: "2 powi (- bitlen n) \<le> x" unfolding p1 x .
  have "1 / y < 1 / 2 ^ nat (bitlen n - 1)" using a y by (simp add: field_simps)
  then have r2: "x < 2 powi (- bitlen n + 1)" unfolding p2 x .
  show ?thesis using r1 r2 by (simp add: e)
qed

lemma rne_of_int: "rne (of_int j) = j"
  by (simp add: rne_def)

lemma rne_error: "\<bar>of_int (rne y) - y\<bar> \<le> 1 / 2"
  unfolding rne_def Let_def by (auto simp: abs_if) linarith+

lemma ilog2_less:
  assumes "0 < x" "x < 2 powi k"
  shows "ilog2 x < k"
proof (rule ccontr)
  assume "\<not> ilog2 x < k"
  then have "k \<le> ilog2 x" by simp
  then have "(2::rat) powi k \<le> 2 powi (ilog2 x)" by (intro power_int_increasing) auto
  with ilog2_bounds[OF assms(1)] assms(2) show False by linarith
qed



lemma fl_0: "fl 0 = 0" by (simp add: fl_def)

lemma fl_exact:
  assumes m: "\<bar>m\<bar> < 2 ^ 53" and k: "- 1074 \<le> k"
  shows "fl (of_int m * 2 powi k) = of_int m * 2 powi k"
proof (cases "m = 0")
  case True then show ?thesis by (simp add: fl_0)
next
  case False
  define x :: rat where "x = of_int m * 2 powi k"
  have xn: "x \<noteq> 0" using False by (simp add: x_def)
  have ax: "\<bar>x\<bar> = of_int \<bar>m\<bar> * 2 powi k" by (simp add: x_def abs_mult)
  have "(of_int \<bar>m\<bar> :: rat) < of_int (2 ^ 53)" using m by (simp only: of_int_less_iff)
  then have "\<bar>x\<bar> < 2 ^ 53 * 2 powi k" unfolding ax by simp
  also have "\<dots> = 2 powi (k + 53)" by (simp add: power_int_add)
  finally have "ilog2 \<bar>x\<bar> < k + 53" using xn by (intro ilog2_less) auto
  define q where "q = max (ilog2 \<bar>x\<bar> - 52) (- 1074)"
  have qk: "q \<le> k" using \<open>ilog2 \<bar>x\<bar> < k + 53\<close> k by (simp add: q_def)
  have "(2::rat) powi k = 2 powi (k - q) * 2 powi q" by (simp flip: power_int_add)
  also have "(2::rat) powi (k - q) = 2 ^ nat (k - q)" using qk by (simp add: power_int_def)
  finally have pk: "(2::rat) powi k = 2 ^ nat (k - q) * 2 powi q" .
  have y: "x / pow2 q = of_int (m * 2 ^ nat (k - q))"
    by (simp add: x_def pow2_powi pk)
  have "fl x = of_int (rne (x / pow2 q)) * pow2 q"
    using xn by (simp add: fl_def q_def Let_def)
  also have "\<dots> = of_int (m * 2 ^ nat (k - q)) * 2 powi q"
    unfolding y rne_of_int by (simp add: pow2_powi)
  also have "\<dots> = x" by (simp add: x_def pk)
  finally show ?thesis by (simp add: x_def)
qed

lemma fl_of_int: "\<bar>n\<bar> < 2 ^ 53 \<Longrightarrow> fl (of_int n) = of_int n"
  using fl_exact[of n 0] by simp

lemma fl_of_int_shift:
  assumes "\<bar>m\<bar> < 2 ^ 53"
  shows "fl (of_int (m * 2 ^ j)) = of_int (m * 2 ^ j)"
  using fl_exact[OF assms, of "int j"] by simp

lemma fl_error:
  assumes "\<bar>x\<bar> < 2 powi k" "- 1021 \<le> k"
  shows "\<bar>fl x - x\<bar> \<le> 2 powi (k - 54)"
proof (cases "x = 0")
  case True then show ?thesis by (simp add: fl_0)
next
  case False
  define q where "q = max (ilog2 \<bar>x\<bar> - 52) (- 1074)"
  have "ilog2 \<bar>x\<bar> < k" using False assms(1) by (intro ilog2_less) auto
  then have qk: "q \<le> k - 53" using assms(2) by (simp add: q_def)
  define y where "y = x / 2 powi q"
  have x: "x = y * 2 powi q" by (simp add: y_def)
  have "fl x = of_int (rne y) * 2 powi q"
    using False by (simp add: fl_def q_def Let_def y_def pow2_powi)
  then have "fl x - x = (of_int (rne y) - y) * 2 powi q" using x by (simp add: algebra_simps)
  then have "\<bar>fl x - x\<bar> = \<bar>of_int (rne y) - y\<bar> * 2 powi q" by (simp add: abs_mult)
  also have "\<dots> \<le> 1 / 2 * 2 powi q"
    by (intro mult_right_mono rne_error) simp
  also have "\<dots> \<le> 1 / 2 * 2 powi (k - 53)"
    using qk by (intro mult_left_mono power_int_increasing) auto
  also have "\<dots> = 2 powi (k - 54)"
  proof -
    have "(2::rat) powi (k - 53) = 2 powi (k - 54 + 1)" by simp
    also have "\<dots> = 2 powi (k - 54) * 2" by (subst power_int_add) auto
    finally show ?thesis by simp
  qed
  finally show ?thesis .
qed

section \<open>Closed forms of the accessors\<close>

lemma fl_nonneg: "0 \<le> x \<Longrightarrow> 0 \<le> fl x"
proof -
  assume x: "0 \<le> x"
  have p: "\<And>q. 0 < pow2 q" by (simp add: pow2_powi)
  have r: "\<And>y. 0 \<le> y \<Longrightarrow> 0 \<le> rne y"
    unfolding rne_def Let_def by (auto simp: zero_le_floor intro: add_nonneg_nonneg)
  show ?thesis unfolding fl_def Let_def using x p r
    by (auto intro!: mult_nonneg_nonneg simp: less_imp_le)
qed

lemma wrap64_id: "is_int64 i \<Longrightarrow> wrap64 i = i"
  by (simp add: is_int64_def wrap64_def)

lemma is_int64_wrap64: "is_int64 (wrap64 i)"
  by (simp add: is_int64_def wrap64_def)

lemma sdiv_nonneg: "0 \<le> a \<Longrightarrow> 0 < b \<Longrightarrow> a sdiv b = a div (b::int)"
  by (simp add: signed_divide_int_def sgn_if)

lemma smod_nonneg: "0 \<le> a \<Longrightarrow> 0 < b \<Longrightarrow> a smod b = a mod (b::int)"
  by (simp add: signed_modulo_int_def sgn_if)

lemma sdiv_neg: "a < 0 \<Longrightarrow> 0 < b \<Longrightarrow> a sdiv b = - ((- a) div (b::int))"
  by (simp add: signed_divide_int_def sgn_if)

lemma smod_neg: "a < 0 \<Longrightarrow> 0 < b \<Longrightarrow> a smod b = - ((- a) mod (b::int))"
  by (simp add: signed_modulo_int_def sgn_if)

lemma abs_sdiv: "0 < b \<Longrightarrow> \<bar>a sdiv b\<bar> = \<bar>a\<bar> div (b::int)"
proof (cases "0 \<le> a")
  case True
  assume "0 < b"
  with True have "0 \<le> a div b" by (simp add: pos_imp_zdiv_nonneg_iff)
  with True \<open>0 < b\<close> show ?thesis by (simp add: sdiv_nonneg)
next
  case False
  assume "0 < b"
  with False have "0 \<le> (- a) div b" by (simp add: pos_imp_zdiv_nonneg_iff)
  with False \<open>0 < b\<close> show ?thesis by (simp add: sdiv_neg)
qed

lemma abs_smod_less: "0 < b \<Longrightarrow> \<bar>a smod b\<bar> < (b::int)"
proof (cases "0 \<le> a")
  case True
  assume "0 < b"
  with True pos_mod_sign[of b a] pos_mod_bound[of b a] show ?thesis by (simp add: smod_nonneg)
next
  case False
  assume "0 < b"
  with False pos_mod_sign[of b "- a"] pos_mod_bound[of b "- a"] show ?thesis
    by (simp add: smod_neg)
qed

lemma sdiv_smod: "0 < b \<Longrightarrow> a - b * (a sdiv b) = a smod (b::int)"
proof (cases "0 \<le> a")
  case True
  assume "0 < b"
  with True show ?thesis by (simp add: smod_nonneg sdiv_nonneg minus_mult_div_eq_mod)
next
  case False
  assume "0 < b"
  have "(- a) - b * ((- a) div b) = (- a) mod b" by (rule minus_mult_div_eq_mod)
  then have "a + b * ((- a) div b) = - ((- a) mod b)" by linarith
  with False \<open>0 < b\<close> show ?thesis by (simp add: smod_neg sdiv_neg)
qed

lemma trunc_int_divide: "0 < b \<Longrightarrow> trunc_int (of_int a / of_int b) = a sdiv b"
proof (cases "0 \<le> a")
  case True
  assume b: "0 < b"
  with True have "(0::rat) \<le> of_int a / of_int b" by simp
  then show ?thesis using True b by (simp add: trunc_int_def sdiv_nonneg floor_divide_of_int_eq)
next
  case False
  assume b: "0 < b"
  with False have n: "\<not> (0::rat) \<le> of_int a / of_int b" by (simp add: field_simps)
  have "\<lceil>(of_int a :: rat) / of_int b\<rceil> = - \<lfloor>of_int (- a) / (of_int b :: rat)\<rfloor>"
    by (simp add: ceiling_def)
  also have "\<dots> = - ((- a) div b)" by (simp only: floor_divide_of_int_eq)
  finally show ?thesis using False b n by (simp add: trunc_int_def sdiv_neg)
qed

lemma math_Mod_int: "0 < b \<Longrightarrow> math_Mod (of_int a) (of_int b) = of_int (a smod b)"
proof -
  assume b: "0 < b"
  have "math_Mod (of_int a) (of_int b) = of_int a - of_int b * of_int (a sdiv b)"
    using b trunc_int_divide[OF b, of a] by (simp add: math_Mod_def abs_if)
  also have "\<dots> = of_int (a - b * (a sdiv b))" by simp
  finally show ?thesis by (simp only: sdiv_smod[OF b])
qed

lemma int64_quo_bound:
  assumes "is_int64 d" "60000000000 \<le> c"
  shows "\<bar>d sdiv c\<bar> \<le> 153722867"
proof -
  have c: "0 < c" using assms by simp
  have "\<bar>d\<bar> \<le> 2 ^ 63" using assms by (simp add: is_int64_def abs_if)
  have "\<bar>d sdiv c\<bar> = \<bar>d\<bar> div c" by (rule abs_sdiv[OF c])
  also have "\<dots> \<le> 2 ^ 63 div c" using \<open>\<bar>d\<bar> \<le> 2 ^ 63\<close> by (rule zdiv_mono1) (rule c)
  also have "\<dots> \<le> 2 ^ 63 div 60000000000" using assms(2) by (intro zdiv_mono2) auto
  also have "\<dots> = (153722867::int)" by simp
  finally show ?thesis .
qed

lemma float64_quo:
  assumes "is_int64 d" "60000000000 \<le> c"
  shows "float64_of_int64 (int64_quo d c) = of_int (d sdiv c)"
proof -
  note b = int64_quo_bound[OF assms]
  have "is_int64 (d sdiv c)" using b by (simp add: is_int64_def abs_le_iff)
  then have "int64_quo d c = d sdiv c" by (simp add: int64_quo_def wrap64_id)
  moreover have "\<bar>d sdiv c\<bar> < 2 ^ 53" using b by simp
  ultimately show ?thesis by (simp add: float64_of_int64_def fl_of_int)
qed

lemma float64_small: "\<bar>n\<bar> < 2 ^ 53 \<Longrightarrow> float64_of_int64 n = of_int n"
  by (simp add: float64_of_int64_def fl_of_int)

lemmas unit_defs = Nanosecond_def Microsecond_def Millisecond_def Second_def Minute_def
  Hour_def Day_def Week_def Month_def Year_def

lemma const_quos:
  "float64_of_int64 (int64_quo Year Day) = 365"
  "float64_of_int64 (int64_quo Week Day) = 7"
  "float64_of_int64 (int64_quo Day Hour) = 24"
  "float64_of_int64 (int64_quo Hour Minute) = 60"
  "float64_of_int64 Minute = 60000000000"
  "float64_of_int64 Second = 1000000000"
  using float64_small[of 365] float64_small[of 7] float64_small[of 24] float64_small[of 60]
    float64_small[of 60000000000] float64_small[of 1000000000]
  by (simp_all add: unit_defs int64_quo_def signed_divide_int_def wrap64_def)

lemma unit_ge:
  "60000000000 \<le> Minute" "60000000000 \<le> Hour" "60000000000 \<le> Day" "60000000000 \<le> Year"
  by (simp_all add: unit_defs)

lemma Years_eq: "is_int64 d \<Longrightarrow> Years d = of_int (d sdiv Year)"
  by (simp add: Years_def float64_quo math_Floor_def unit_ge)

lemma Days_eq: "is_int64 d \<Longrightarrow> Days d = of_int ((d sdiv Day) smod 365)"
  using math_Mod_int[of 365 "d sdiv Day"]
  by (simp add: Days_def float64_quo const_quos unit_ge)

lemma Hours_eq: "is_int64 d \<Longrightarrow> Hours d = of_int ((d sdiv Hour) smod 24)"
  using math_Mod_int[of 24 "d sdiv Hour"]
  by (simp add: Hours_def float64_quo const_quos unit_ge)

lemma Minutes_eq: "is_int64 d \<Longrightarrow> Minutes d = of_int ((d sdiv Minute) smod 60)"
  using math_Mod_int[of 60 "d sdiv Minute"]
  by (simp add: Minutes_def float64_quo const_quos unit_ge)

lemma Weeks_eq:
  "is_int64 d \<Longrightarrow> Weeks d =
     (if 0 < ((d sdiv Day) smod 365) smod 7 then 0 else fl (of_int ((d sdiv Day) smod 365) / 7))"
  using math_Mod_int[of 7 "(d sdiv Day) smod 365"]
  by (simp add: Weeks_def Days_eq const_quos)

section \<open>Seconds\<close>

lemma trunc_int_unique: "0 \<le> m \<Longrightarrow> of_int m \<le> y \<Longrightarrow> y < of_int m + 1 \<Longrightarrow> trunc_int y = m"
proof -
  assume a: "0 \<le> m" "of_int m \<le> y" "y < of_int m + 1"
  then have "0 \<le> y" by (meson of_int_0_le_iff order_trans)
  moreover have "\<lfloor>y\<rfloor> = m" using a by (intro floor_unique) auto
  ultimately show ?thesis by (simp add: trunc_int_def)
qed

lemma trunc_sum:
  assumes m: "0 \<le> m" "m < 2 ^ 53" and mk: "of_int m + 1 < (2::rat) powi k" and k: "- 1021 \<le> k"
    and x: "0 \<le> x" "x + 2 powi (- 54) + 2 powi (k - 54) < 1"
    and x0: "x = 0 \<or> 2 powi (- 54) + 2 powi (k - 54) \<le> x"
  shows "trunc_int (fl (of_int m + fl x)) = m"
proof (cases "x = 0")
  case True
  have "fl (of_int m) = of_int m" using m by (intro fl_of_int) simp
  then show ?thesis using True m by (simp add: fl_0 trunc_int_unique)
next
  case False
  have p: "(0::rat) < 2 powi (- 54)" "(0::rat) < 2 powi (k - 54)" by simp_all
  have "x < 1" using x(2) p by linarith
  then have "\<bar>x\<bar> < 2 powi 0" using x(1) by simp
  from fl_error[OF this] have "\<bar>fl x - x\<bar> \<le> 2 powi (- 54)" by simp
  then have e1: "fl x \<le> x + 2 powi (- 54)" "x - 2 powi (- 54) \<le> fl x" by linarith+
  have f0: "0 \<le> fl x" using x by (intro fl_nonneg)
  define S where "S = of_int m + fl x"
  have S0: "0 \<le> S" using m f0 by (simp add: S_def)
  have "S < of_int m + 1" using e1 x p unfolding S_def by linarith
  then have "\<bar>S\<bar> < 2 powi k" using S0 mk by simp
  from fl_error[OF this k] have "\<bar>fl S - S\<bar> \<le> 2 powi (k - 54)" .
  then have e2: "fl S \<le> S + 2 powi (k - 54)" "S - 2 powi (k - 54) \<le> fl S" by linarith+
  have lo: "of_int m \<le> fl S" using e1 e2 x0 False unfolding S_def by linarith
  have hi: "fl S < of_int m + 1" using e1 e2 x unfolding S_def by linarith
  show ?thesis using trunc_int_unique[OF m(1) lo hi] by (simp add: S_def)
qed

lemma nonneg_quo_rem:
  assumes "0 \<le> d" "is_int64 d"
  shows "float64_of_int64 (int64_quo d Minute) = of_int (d div Minute)"
    and "float64_of_int64 (int64_rem d Minute) = of_int (d mod Minute)"
proof -
  have M: "Minute = 60000000000" by (simp add: unit_defs)
  show "float64_of_int64 (int64_quo d Minute) = of_int (d div Minute)"
    using float64_quo[OF assms(2), of Minute] assms(1) by (simp add: M sdiv_nonneg)
  have "0 \<le> d mod Minute" "d mod Minute < Minute" by (simp_all add: M)
  then have "\<bar>d mod Minute\<bar> < 2 ^ 53" by (simp add: M)
  then show "float64_of_int64 (int64_rem d Minute) = of_int (d mod Minute)"
    using assms(1) by (simp add: int64_rem_def smod_nonneg float64_small M)
qed

lemma time_Minutes_eq:
  assumes "0 \<le> d" "is_int64 d"
  shows "time_Minutes d = fl (of_int (d div Minute) + fl (of_int (d mod Minute) / 60000000000))"
proof -
  have "fl (of_int 60000000000) = of_int 60000000000" by (intro fl_of_int) simp
  then have c: "fl 60000000000 = 60000000000" by simp
  show ?thesis using nonneg_quo_rem[OF assms] c by (simp add: time_Minutes_def Let_def)
qed

lemma Trunc_Minutes_small:
  assumes "0 \<le> d" "d < 2 ^ 53"
  shows "math_Trunc (time_Minutes d) = of_int (d div Minute)"
proof -
  have M: "Minute = 60000000000" by (simp add: unit_defs)
  have i: "is_int64 d" using assms by (simp add: is_int64_def)
  define m where "m = d div Minute"
  define r where "r = d mod Minute"
  have m: "0 \<le> m" "m \<le> 150119" using assms unfolding m_def M by (simp_all add: pos_imp_zdiv_nonneg_iff) linarith?
  have r: "0 \<le> r" "r \<le> 59999999999" unfolding r_def M by simp_all
  define x :: rat where "x = of_int r / 60000000000"
  have xr: "x * 60000000000 = of_int r" by (simp add: x_def)
  have x0: "0 \<le> x" using r by (simp add: x_def)
  have "(of_int r :: rat) \<le> 59999999999" using r(2) by (metis of_int_le_iff of_int_numeral)
  then have x1: "x \<le> 59999999999 / 60000000000" by (simp add: x_def)
  have pw: "(2::rat) powi (- 54) = 1 / 18014398509481984" "(2::rat) powi (18 - 54) = 1 / 68719476736"
    by (simp_all add: power_int_minus_divide)
  have a: "x + 2 powi (- 54) + 2 powi (18 - 54) < 1" using x1 unfolding pw by simp
  have b: "x = 0 \<or> 2 powi (- 54) + 2 powi (18 - 54) \<le> x"
  proof (cases "r = 0")
    case True then show ?thesis by (simp add: x_def)
  next
    case False
    then have "1 \<le> r" using r by simp
    then have "(1::rat) \<le> of_int r" by (metis of_int_1 of_int_le_iff)
    then have "1 / 60000000000 \<le> x" by (simp add: x_def)
    then show ?thesis unfolding pw by simp
  qed
  have "(of_int m :: rat) \<le> 150119" using m(2) by (metis of_int_le_iff of_int_numeral)
  then have c: "of_int m + 1 < (2::rat) powi 18" by (simp add: power_int_def)
  have "trunc_int (fl (of_int m + fl x)) = m"
    using m by (intro trunc_sum[OF _ _ c _ x0 a b]) auto
  then show ?thesis
    unfolding math_Trunc_def time_Minutes_eq[OF assms(1) i] m_def r_def x_def by simp
qed

lemma Seconds_from_trunc:
  assumes "0 \<le> d" "is_int64 d"
    and exd: "fl (of_int d) = of_int d"
    and exm: "fl (of_int (d div Minute * Minute)) = of_int (d div Minute * Minute)"
    and tr: "math_Trunc (time_Minutes d) = of_int (d div Minute)"
  shows "Seconds d = fl (of_int (d mod Minute) / 1000000000)"
proof -
  have M: "Minute = 60000000000" by (simp add: unit_defs)
  have r: "0 \<le> d mod Minute" "d mod Minute < 60000000000" by (simp_all add: M)
  have "fl (of_int (d mod Minute)) = of_int (d mod Minute)" using r by (intro fl_of_int) simp
  moreover have "(of_int d :: rat) - of_int (d div Minute * Minute) = of_int (d mod Minute)"
  proof -
    have "d - d div Minute * Minute = d mod Minute" by (simp add: minus_div_mult_eq_mod)
    then show ?thesis by (simp only: flip: of_int_diff)
  qed
  moreover have "float64_of_int64 d = of_int d" using exd by (simp add: float64_of_int64_def)
  ultimately show ?thesis
    using exm unfolding Seconds_def tr const_quos time_Nanoseconds_def
    by (simp add: M)
qed

lemma Seconds_small:
  assumes "0 \<le> d" "d < 2 ^ 53"
  shows "Seconds d = fl (of_int (d mod Minute) / 1000000000)"
proof -
  have i: "is_int64 d" using assms by (simp add: is_int64_def)
  have M: "Minute = 60000000000" by (simp add: unit_defs)
  have "d div Minute * Minute \<le> d" by (simp add: M)
  moreover have "0 \<le> d div Minute * Minute" using assms by (simp add: M pos_imp_zdiv_nonneg_iff)
  ultimately have "\<bar>d div Minute * Minute\<bar> < 2 ^ 53" using assms by simp
  then have "fl (of_int (d div Minute * Minute)) = of_int (d div Minute * Minute)" by (rule fl_of_int)
  moreover have "fl (of_int d) = of_int d" using assms by (intro fl_of_int) simp
  ultimately show ?thesis using Trunc_Minutes_small[OF assms] Seconds_from_trunc[OF assms(1) i] by simp
qed

section \<open>Rounding is monotone\<close>






section \<open>Where Seconds is not negative\<close>















section \<open>The matches of the two patterns\<close>

lemma lead_Nil [simp]: "lead cls [] = None"
  by (simp add: lead_def)

lemma lead_Cons:
  "lead cls (x # t) =
    (if x \<in> set cls then (if lead cls t = None then (case t of [] \<Rightarrow> None | y # _ \<Rightarrow> if y \<in> set cls then None else Some y) else lead cls t)
     else None)"
  by (cases t) (auto simp: lead_def split: list.splits)

lemma plus_class_lit:
  assumes "c \<notin> set cls"
  shows "concat (map (\<lambda>s'. rmatch (Lit c) (s', f s')) (plus_class cls s)) =
         (if lead cls s = Some c
          then [(tl (dropWhile (\<lambda>x. x \<in> set cls) s), f (dropWhile (\<lambda>x. x \<in> set cls) s))]
          else [])"
proof (induction s)
  case Nil
  show ?case by simp
next
  case (Cons x t)
  note IH = Cons.IH
  show ?case
  proof (cases "x \<in> set cls")
    case False
    then show ?thesis by (simp add: lead_Cons)
  next
    case True
    show ?thesis
    proof (cases "lead cls t = Some c")
      case l: True
      then have "takeWhile (\<lambda>x. x \<in> set cls) t \<noteq> []" by (auto simp: lead_def split: if_splits)
      then obtain y t' where t: "t = y # t'" "y \<in> set cls" by (cases t) (auto split: if_splits)
      then have "y \<noteq> c" using assms by auto
      then show ?thesis using True l IH t by (simp add: lead_Cons)
    next
      case l: False
      show ?thesis
      proof (cases t)
        case Nil
        then show ?thesis using True l IH by (simp add: lead_Cons)
      next
        case (Cons y t')
        show ?thesis
        proof (cases "y \<in> set cls")
          case y: True
          then have "y \<noteq> c" using assms by auto
          moreover have "lead cls t \<noteq> None \<or> lead cls (x # t) \<noteq> Some c" using y Cons True l
            by (auto simp: lead_Cons[of cls x])
          ultimately show ?thesis using True l IH Cons y
            by (auto simp: lead_Cons[of cls x])
        next
          case y: False
          then have "lead cls t = None" using Cons by (simp add: lead_def)
          then show ?thesis using True l y Cons IH
            by (auto simp: lead_Cons[of cls x])
        qed
      qed
    qed
  qed
qed

lemma take_takeWhile: "take (length s - length (dropWhile P s)) s = takeWhile P s"
proof -
  have "length s - length (dropWhile P s) = length (takeWhile P s)"
    by (metis add_diff_cancel_right' length_append takeWhile_dropWhile_id)
  then show ?thesis by (metis append_eq_conv_conj takeWhile_dropWhile_id)
qed

lemma lead_SomeD:
  assumes "lead cls s = Some c"
  shows "takeWhile (\<lambda>x. x \<in> set cls) s \<noteq> []"
    and "dropWhile (\<lambda>x. x \<in> set cls) s = c # tl (dropWhile (\<lambda>x. x \<in> set cls) s)"
  using assms by (auto simp: lead_def split: if_splits list.splits)

lemma take_field: 
  assumes "lead cls s = Some c"
  shows "take (length s - length (tl (dropWhile (\<lambda>x. x \<in> set cls) s))) s
         = takeWhile (\<lambda>x. x \<in> set cls) s @ [c]"
proof -
  let ?P = "\<lambda>x. x \<in> set cls"
  have s: "s = (takeWhile ?P s @ [c]) @ tl (dropWhile ?P s)"
    using lead_SomeD(2)[OF assms] by (metis append.assoc append_Cons append_Nil takeWhile_dropWhile_id)
  have "length s - length (tl (dropWhile ?P s)) = length (takeWhile ?P s @ [c])"
    by (subst s) (simp del: length_tl)
  then show ?thesis by (metis append_eq_conv_conj s)
qed

lemma rmatch_field:
  assumes "c \<notin> set cls"
  shows "rmatch (field i name cls c) st =
           (if lead cls (fst st) = Some c then [fstep i cls c st, st] else [st])"
proof -
  obtain s caps where st: "st = (s, caps)" by (cases st)
  let ?P = "\<lambda>x. x \<in> set cls"
  have "rmatch (Cat (Group (i + 1) name (PlusClass cls)) (Lit c)) (s, caps) =
     concat (map (\<lambda>s'. rmatch (Lit c) (s', caps(i + 1 := take (length s - length s') s)))
               (plus_class cls s))"
    by (simp add: comp_def)
  also have "\<dots> = (if lead cls s = Some c
      then [(tl (dropWhile ?P s), caps(i + 1 := take (length s - length (dropWhile ?P s)) s))]
      else [])"
    by (rule plus_class_lit[OF assms])
  finally have cat: "rmatch (Cat (Group (i + 1) name (PlusClass cls)) (Lit c)) (s, caps) =
     (if lead cls s = Some c
      then [(tl (dropWhile ?P s), caps(i + 1 := take (length s - length (dropWhile ?P s)) s))]
      else [])" .
  have "rmatch (field i name cls c) (s, caps) =
      map (\<lambda>(s', caps'). (s', caps'(i := take (length s - length s') s)))
        (rmatch (Cat (Group (i + 1) name (PlusClass cls)) (Lit c)) (s, caps)) @ [(s, caps)]"
    unfolding field_def by (simp only: rmatch.simps)
  then show ?thesis
    unfolding cat st by (simp add: fstep_def take_takeWhile take_field del: length_tl)
qed

lemma first_field:
  "c \<notin> set cls \<Longrightarrow> first (field i name cls c) st = Some (fstep i cls c st)"
  by (simp add: first_def rmatch_field fstep_def)

lemma always_field: "c \<notin> set cls \<Longrightarrow> always (field i name cls c)"
  by (simp add: always_def rmatch_field)

lemma always_Opt: "always (Opt a)"
  by (simp add: always_def)

lemma always_Cat: "always a \<Longrightarrow> always b \<Longrightarrow> always (Cat a b)"
  unfolding always_def
proof
  fix st assume a: "\<forall>st. rmatch a st \<noteq> []" and b: "\<forall>st. rmatch b st \<noteq> []"
  from a obtain x xs where "rmatch a st = x # xs" by (meson list.exhaust)
  moreover from b obtain y ys where "rmatch b x = y # ys" by (meson list.exhaust)
  ultimately show "rmatch (Cat a b) st \<noteq> []" by simp
qed

lemma first_Cat:
  assumes "always b"
  shows "first (Cat a b) st = (case first a st of None \<Rightarrow> None | Some x \<Rightarrow> first b x)"
proof (cases "rmatch a st")
  case Nil
  then show ?thesis by (simp add: first_def)
next
  case (Cons x xs)
  from assms obtain y ys where "rmatch b x = y # ys" unfolding always_def by (meson list.exhaust)
  with Cons show ?thesis by (simp add: first_def)
qed

lemma first_Opt: "first (Opt a) st = (case first a st of None \<Rightarrow> Some st | Some x \<Rightarrow> Some x)"
  by (cases "rmatch a st") (simp_all add: first_def)

lemma first_Lit:
  "first (Lit c) (s, caps) = (case s of [] \<Rightarrow> None | x # xs \<Rightarrow> if x = c then Some (xs, caps) else None)"
  by (simp add: first_def split: list.splits)

lemma first_Group:
  "first (Group i name a) (s, caps) =
     map_option (\<lambda>(s', caps'). (s', caps'(i := take (length s - length s') s))) (first a (s, caps))"
  by (cases "rmatch a (s, caps)") (auto simp: first_def)


lemma rmatch_group:
  assumes "c \<notin> set cls"
  shows "rmatch (Group i [] (Cat (Group (i + 1) name (PlusClass cls)) (Lit c))) st =
           (if lead cls (fst st) = Some c then [fstep i cls c st] else [])"
proof -
  have "rmatch (field i name cls c) st =
        rmatch (Group i [] (Cat (Group (i + 1) name (PlusClass cls)) (Lit c))) st @ [st]"
    unfolding field_def by (simp only: rmatch.simps)
  with rmatch_field[OF assms, of i name st] show ?thesis
    by (auto split: if_splits)
qed

lemma class_facts:
  "CHR ''Y'' \<notin> set digit_class" "CHR ''M'' \<notin> set digit_class" "CHR ''D'' \<notin> set digit_class"
  "CHR ''H'' \<notin> set digit_class" "CHR ''W'' \<notin> set digit_class" "CHR ''S'' \<notin> set digit_dot_class"
  "CHR ''T'' \<notin> set digit_class" "CHR ''P'' \<notin> set digit_class"
  by (simp_all add: digit_class_def digit_dot_class_def)

lemma rmatch_week:
  "rmatch week (s, caps) =
    (case s of [] \<Rightarrow> [] | x # r \<Rightarrow>
       if x = CHR ''P'' \<and> lead digit_class r = Some CHR ''W''
       then [fstep 1 digit_class CHR ''W'' (r, caps)] else [])"
proof -
  let ?G = "Group 1 [] (Cat (Group 2 ''week'' (PlusClass digit_class)) (Lit CHR ''W''))"
  have g: "rmatch ?G st =
      (if lead digit_class (fst st) = Some CHR ''W''
       then [fstep 1 digit_class CHR ''W'' st] else [])" for st
    using rmatch_group[OF class_facts(5), of 1 "''week''" st] by (simp only: one_add_one)
  have "rmatch week (s, caps) = concat (map (rmatch ?G) (rmatch (Lit CHR ''P'') (s, caps)))"
    unfolding week_def by (rule rmatch.simps(3))
  then show ?thesis unfolding g by (cases s) simp_all
qed

lemma first_full:
  "first full (s, caps) =
    (case s of [] \<Rightarrow> None | x # r \<Rightarrow>
       if x = CHR ''P''
       then Some (tstep (fstep 5 digit_class CHR ''D'' (fstep 3 digit_class CHR ''M''
                    (fstep 1 digit_class CHR ''Y'' (r, caps)))))
       else None)"
proof -
  let ?t3 = "Cat (field 8 ''hour'' digit_class CHR ''H'')
              (Cat (field 10 ''minute'' digit_class CHR ''M'')
                   (field 12 ''second'' digit_dot_class CHR ''S''))"
  let ?tg = "Opt (Group 7 [] (Cat (Lit CHR ''T'') ?t3))"
  have a3: "always ?t3" by (intro always_Cat always_field class_facts)
  have t3: "first ?t3 st = Some (fstep 12 digit_dot_class CHR ''S''
                   (fstep 10 digit_class CHR ''M'' (fstep 8 digit_class CHR ''H'' st)))" for st
    by (simp add: first_Cat always_Cat always_field first_field class_facts)
  have tg: "first ?tg st = Some (tstep st)" for st
  proof (cases st)
    case (Pair s caps)
    show ?thesis unfolding Pair
      by (cases s) (simp_all add: first_Opt first_Group first_Cat[OF a3] first_Lit t3 tstep_def
                      split: prod.splits)
  qed
  have atg: "always ?tg" by (rule always_Opt)
  have "first full (s, caps) =
     (case first (Lit CHR ''P'') (s, caps) of None \<Rightarrow> None
      | Some st \<Rightarrow> Some (tstep (fstep 5 digit_class CHR ''D'' (fstep 3 digit_class CHR ''M''
                    (fstep 1 digit_class CHR ''Y'' st)))))"
    unfolding full_def
    by (simp add: first_Cat always_Cat always_field atg first_field class_facts tg
          split: option.splits)
  then show ?thesis by (simp add: first_Lit split: list.splits)
qed

lemma names_length: "length (SubexpNames full) = 14" "length (SubexpNames week) = 3"
  by (simp_all add: SubexpNames_def full_def week_def field_def)

lemma Find_unfold:
  "FindStringSubmatch re s =
     (case first re (s, \<lambda>i. []) of
        Some (s', caps) \<Rightarrow>
          Some (map (caps(0 := take (length s - length s') s)) [0 ..< length (SubexpNames re)])
      | None \<Rightarrow> (case s of [] \<Rightarrow> None | _ # t \<Rightarrow> FindStringSubmatch re t))"
  by (subst FindStringSubmatch.simps) (simp add: first_def split: list.splits)

lemma first_week:
  "first week (s, caps) =
    (case s of [] \<Rightarrow> None | x # r \<Rightarrow>
       if x = CHR ''P'' \<and> lead digit_class r = Some CHR ''W''
       then Some (fstep 1 digit_class CHR ''W'' (r, caps)) else None)"
  by (simp add: first_def rmatch_week split: list.splits)

lemma Find_no_P:
  "CHR ''P'' \<notin> set s \<Longrightarrow> FindStringSubmatch full s = None \<and> FindStringSubmatch week s = None"
proof (induction s)
  case Nil
  show ?case by (simp add: Find_unfold[of _ "[]"] first_full first_week)
next
  case (Cons x t)
  then have "x \<noteq> CHR ''P''" "CHR ''P'' \<notin> set t" by auto
  with Cons.IH show ?case by (simp add: Find_unfold[of _ "x # t"] first_full first_week)
qed

lemma Find_skip:
  "CHR ''P'' \<notin> set pre \<Longrightarrow>
     FindStringSubmatch full (pre @ s) = FindStringSubmatch full s \<and>
     FindStringSubmatch week (pre @ s) = FindStringSubmatch week s"
proof (induction pre)
  case Nil
  show ?case by simp
next
  case (Cons x t)
  then have "x \<noteq> CHR ''P''" "CHR ''P'' \<notin> set t" by auto
  with Cons.IH show ?case by (simp add: Find_unfold[of _ "x # t @ s"] first_full first_week)
qed

lemma Find_full_P: "FindStringSubmatch full (CHR ''P'' # r) \<noteq> None"
  by (simp add: Find_unfold[of _ "CHR ''P'' # r"] first_full case_prod_beta)

lemma Find_full_iff: "FindStringSubmatch full s = None \<longleftrightarrow> CHR ''P'' \<notin> set s"
proof
  assume n: "FindStringSubmatch full s = None"
  show "CHR ''P'' \<notin> set s"
  proof
    assume "CHR ''P'' \<in> set s"
    then obtain pre r where "s = pre @ CHR ''P'' # r" "CHR ''P'' \<notin> set pre"
      by (meson split_list_first)
    with Find_skip[of pre "CHR ''P'' # r"] Find_full_P[of r] n show False by simp
  qed
next
  assume "CHR ''P'' \<notin> set s"
  then show "FindStringSubmatch full s = None" by (simp add: Find_no_P)
qed

lemma add_field_not_bad: "add_field name val d \<noteq> Inl ErrBadFormat"
  by (simp add: add_field_def Let_def)

lemma parse_loop_not_bad: "parse_loop xs d \<noteq> Inl ErrBadFormat"
proof (induction xs arbitrary: d)
  case Nil
  show ?case by simp
next
  case (Cons a xs)
  obtain i name part where a: "a = (i, name, part)" by (cases a)
  show ?case using Cons add_field_not_bad
    by (auto simp: a split: sum.splits)
qed

lemma ParseString_bad_iff:
  "ParseString s = Inl ErrBadFormat \<longleftrightarrow> CHR ''P'' \<notin> set s"
proof
  assume b: "ParseString s = Inl ErrBadFormat"
  show "CHR ''P'' \<notin> set s"
  proof (rule ccontr)
    assume "\<not> CHR ''P'' \<notin> set s"
    then have "MatchString full s" by (simp add: MatchString_def Find_full_iff)
    with b show False
      by (auto simp: ParseString_def parse_match_def parse_loop_not_bad split: if_splits)
  qed
next
  assume "CHR ''P'' \<notin> set s"
  then show "ParseString s = Inl ErrBadFormat"
    by (simp add: ParseString_def MatchString_def Find_no_P)
qed


lemma take_Suc_field:
  assumes "lead cls r = Some c"
  shows "take (Suc (length r) - length (tl (dropWhile (\<lambda>x. x \<in> set cls) r))) (p # r)
         = p # takeWhile (\<lambda>x. x \<in> set cls) r @ [c]"
proof -
  have "length (tl (dropWhile (\<lambda>x. x \<in> set cls) r)) \<le> length r"
    by (metis diff_le_self le_trans length_dropWhile_le length_tl)
  then have "Suc (length r) - length (tl (dropWhile (\<lambda>x. x \<in> set cls) r))
        = Suc (length r - length (tl (dropWhile (\<lambda>x. x \<in> set cls) r)))"
    by (rule Suc_diff_le)
  then show ?thesis using take_field[OF assms] by (simp del: length_tl)
qed

lemma upt3: "[0..<3] = [0, 1, 2::nat]"
  by (simp add: upt_conv_Cons)

lemma Find_week_hit:
  assumes "lead digit_class r = Some CHR ''W''"
  shows "FindStringSubmatch week (CHR ''P'' # r) =
     Some [CHR ''P'' # takeWhile (\<lambda>x. x \<in> set digit_class) r @ ''W'',
           takeWhile (\<lambda>x. x \<in> set digit_class) r @ ''W'',
           takeWhile (\<lambda>x. x \<in> set digit_class) r]"
  using assms take_Suc_field[OF assms, of "CHR ''P''"]
  by (simp add: Find_unfold[of _ "CHR ''P'' # r"] first_week fstep_def names_length upt3
        del: length_tl)

lemma Find_week_miss:
  assumes "lead digit_class r \<noteq> Some CHR ''W''"
  shows "FindStringSubmatch week (CHR ''P'' # r) = FindStringSubmatch week r"
  using assms by (simp add: Find_unfold[of _ "CHR ''P'' # r"] first_week)

lemma Find_week_other:
  assumes "x \<noteq> CHR ''P''"
  shows "FindStringSubmatch week (x # r) = FindStringSubmatch week r"
  using assms by (simp add: Find_unfold[of _ "x # r"] first_week)

lemma Find_week_Some:
  "FindStringSubmatch week s = Some caps \<Longrightarrow>
     \<exists>ds. ds \<noteq> [] \<and> set ds \<subseteq> set digit_class \<and> caps = [''P'' @ ds @ ''W'', ds @ ''W'', ds]"
proof (induction s)
  case Nil
  then show ?case by (simp add: Find_unfold[of _ "[]"] first_week)
next
  case (Cons x r)
  show ?case
  proof (cases "x = CHR ''P'' \<and> lead digit_class r = Some CHR ''W''")
    case True
    let ?ds = "takeWhile (\<lambda>x. x \<in> set digit_class) r"
    have "?ds \<noteq> []" using True lead_SomeD(1) by blast
    moreover have "set ?ds \<subseteq> set digit_class" by (auto dest: set_takeWhileD)
    moreover have "caps = [''P'' @ ?ds @ ''W'', ?ds @ ''W'', ?ds]"
      using True Cons.prems Find_week_hit[of r] by simp
    ultimately show ?thesis by blast
  next
    case False
    then have "FindStringSubmatch week (x # r) = FindStringSubmatch week r"
      using Find_week_miss[of r] Find_week_other[of x r] by (cases "x = CHR ''P''") auto
    with Cons show ?thesis by simp
  qed
qed

lemma wrap64_wrap64: "wrap64 (wrap64 i) = wrap64 i"
  by (simp add: wrap64_id is_int64_wrap64)



section \<open>Decimal digits\<close>

lemma digit_char_simps:
  "digit_char 0 = CHR ''0''" "digit_char 1 = CHR ''1''" "digit_char 2 = CHR ''2''"
  "digit_char 3 = CHR ''3''" "digit_char 4 = CHR ''4''" "digit_char 5 = CHR ''5''"
  "digit_char 6 = CHR ''6''" "digit_char 7 = CHR ''7''" "digit_char 8 = CHR ''8''"
  "digit_char 9 = CHR ''9''"
  by (simp_all add: digit_char_def)

lemma lt10:
  "0 \<le> k \<Longrightarrow> k < (10::int) \<Longrightarrow>
     k = 0 \<or> k = 1 \<or> k = 2 \<or> k = 3 \<or> k = 4 \<or> k = 5 \<or> k = 6 \<or> k = 7 \<or> k = 8 \<or> k = 9"
  by presburger

lemma digit_props:
  assumes "0 \<le> k" "k < (10::int)"
  shows "is_digit (digit_char (nat k))" and "digit_val (digit_char (nat k)) = k"
    and "digit_char (nat k) = CHR ''0'' \<longleftrightarrow> k = 0"
    and "digit_char (nat k) \<in> set digit_class" and "digit_char (nat k) \<in> set digit_dot_class"
  using lt10[OF assms]
  by (auto simp: digit_char_def is_digit_def digit_val_def digit_class_def digit_dot_class_def)


lemma digits_of_lt10: "n < 10 \<Longrightarrow> digits_of n = [digit_char (nat n)]"
  by (subst digits_of.simps) simp

lemma digits_of_ge10:
  "10 \<le> n \<Longrightarrow> digits_of n = digits_of (n div 10) @ [digit_char (nat (n mod 10))]"
  by (subst digits_of.simps) simp

lemma digits_of_ne [simp]: "digits_of n \<noteq> []"
  by (subst digits_of.simps) simp

lemma digits_of_digits:
  "0 \<le> n \<Longrightarrow> c \<in> set (digits_of n) \<Longrightarrow> is_digit c \<and> c \<in> set digit_class \<and> c \<in> set digit_dot_class"
proof (induction n rule: digits_of.induct)
  case (1 n)
  show ?case
  proof (cases "n < 10")
    case True
    with 1(2,3) digit_props[of n] show ?thesis by (auto simp: digits_of_lt10)
  next
    case False
    then have "0 \<le> n div 10" "0 \<le> n mod 10" "n mod 10 < 10" by simp_all
    with 1 False digit_props[of "n mod 10"] show ?thesis
      by (auto simp: digits_of_ge10)
  qed
qed

lemma dec_value_snoc: "dec_value (ds @ [c]) = 10 * dec_value ds + digit_val c"
  by (simp add: dec_value_def)

lemma dec_value_digits: "0 \<le> n \<Longrightarrow> dec_value (digits_of n) = n"
proof (induction n rule: digits_of.induct)
  case (1 n)
  show ?case
  proof (cases "n < 10")
    case True
    with 1(2) digit_props(2)[of n] show ?thesis by (simp add: digits_of_lt10 dec_value_def)
  next
    case False
    then have "0 \<le> n div 10" "0 \<le> n mod 10" "n mod 10 < 10" by simp_all
    with 1 False digit_props(2)[of "n mod 10"] show ?thesis
      by (simp add: digits_of_ge10 dec_value_snoc)
  qed
qed

lemma takeWhile_digits:
  assumes "0 \<le> n"
  shows "takeWhile is_digit (digits_of n @ s) = digits_of n @ takeWhile is_digit s"
    and "dropWhile is_digit (digits_of n @ s) = dropWhile is_digit s"
  using digits_of_digits[OF assms] by (simp_all add: takeWhile_append2 dropWhile_append2)

lemma ParseFloat_digits:
  assumes "0 \<le> n" "n < 2 ^ 53"
  shows "ParseFloat (digits_of n) = Inr (of_int n)"
proof -
  have t: "takeWhile is_digit (digits_of n) = digits_of n" "dropWhile is_digit (digits_of n) = []"
    using takeWhile_digits[OF assms(1), of "[]"] by simp_all
  have f: "fl (of_int n) = of_int n" using assms by (intro fl_of_int) simp
  have "n \<noteq> 0 \<Longrightarrow> ilog2 (of_int n) < 1024"
  proof -
    assume "n \<noteq> 0"
    then have "(0::rat) < of_int n" using assms by simp
    moreover have "(of_int n :: rat) < of_int (2 ^ 53)" using assms(2) by (simp only: of_int_less_iff)
    then have "(of_int n :: rat) < 2 powi 53" by simp
    ultimately have "ilog2 (of_int n) < 53" by (rule ilog2_less)
    then show ?thesis by simp
  qed
  then show ?thesis
    by (auto simp: ParseFloat_def t f dec_value_digits[OF assms(1)] Let_def)
qed

section \<open>Formatting a small whole number\<close>

lemma declen_small:
  "1 \<le> n \<Longrightarrow> n < 10 \<Longrightarrow> declen n = 1"
  "10 \<le> n \<Longrightarrow> n < 100 \<Longrightarrow> declen n = 2"
  "100 \<le> n \<Longrightarrow> n < 1000 \<Longrightarrow> declen n = 3"
proof -
  have z: "declen 0 = 0" by (subst declen.simps) simp
  show a: "declen n = 1" if "1 \<le> n" "n < 10" for n
    using that z by (subst declen.simps) simp
  show b: "declen n = 2" if "10 \<le> n" "n < 100" for n
  proof -
    have "1 \<le> n div 10" "n div 10 < 10" using that by simp_all
    from a[OF this] that show ?thesis by (subst declen.simps) simp
  qed
  show "declen n = 3" if "100 \<le> n" "n < 1000" for n
  proof -
    have "10 \<le> n div 10" "n div 10 < 100" using that by simp_all
    from b[OF this] that show ?thesis by (subst declen.simps) simp
  qed
qed

lemma ilog10_int: "1 \<le> n \<Longrightarrow> ilog10 (of_int n) = declen n - 1"
  by (simp add: ilog10_def)

lemma pow10_nat: "pow10 (int e) = of_int (10 ^ e)"
  by (simp add: pow10_def)

lemma dec_candidate_int:
  assumes n: "1 \<le> n" "n < 1000" and e: "ilog10 (of_int n) - int j + 1 = int e" "e \<le> 2"
  shows "dec_candidate (of_int n) j =
           (if (10::int) ^ e dvd n then Some (n div 10 ^ e, int e) else None)"
proof -
  define p :: int where "p = 10 ^ e"
  have "e = 0 \<or> e = 1 \<or> e = 2" using e(2) by auto
  then have p: "0 < p" "p \<le> 100" unfolding p_def by auto
  define lo where "lo = n div p"
  have lo: "\<lfloor>(of_int n :: rat) / of_int p\<rfloor> = lo" by (simp add: lo_def floor_divide_of_int_eq)
  have m: "0 \<le> n mod p" "n mod p < p" using p by simp_all
  have eq: "n = lo * p + n mod p" by (simp add: lo_def)
  have hp: "(lo + 1) * p = lo * p + p" by (simp add: algebra_simps)
  have "0 \<le> lo" using p n by (simp add: lo_def pos_imp_zdiv_nonneg_iff)
  then have "0 \<le> lo * p" using p by simp
  then have A: "lo * p \<le> n" "n < (lo + 1) * p" "0 \<le> lo * p"
    using eq m hp by linarith+
  have B: "(lo + 1) * p \<le> 1100" using A p n unfolding hp by linarith
  have fa: "fl (of_int lo * of_int p) = of_int (lo * p)"
    using fl_of_int[of "lo * p"] A n by simp
  have fb: "fl (of_int (lo + 1) * of_int p) = of_int ((lo + 1) * p)"
    using fl_of_int[of "(lo + 1) * p"] A B n by simp
  have "(fl (of_int lo * of_int p) = (of_int n :: rat)) = (lo * p = n)"
    unfolding fa by (rule of_int_eq_iff)
  also have "(lo * p = n) = (p dvd n)"
    unfolding lo_def by (metis dvd_div_mult_self dvd_triv_right)
  finally have oklo: "(fl (of_int lo * of_int p) = (of_int n :: rat)) = (p dvd n)" .
  have okhi: "(fl (of_int (lo + 1) * of_int p) = (of_int n :: rat)) = False"
    unfolding fb of_int_eq_iff using A by simp
  show ?thesis
    unfolding dec_candidate_def e(1) pow10_nat p_def[symmetric] Let_def lo okhi oklo
    by (simp add: lo_def)
qed


lemma shortest_search_3:
  "shortest_search x 1 16 =
     (case dec_candidate x 1 of Some c \<Rightarrow> c | None \<Rightarrow>
        (case dec_candidate x 2 of Some c \<Rightarrow> c | None \<Rightarrow>
           (case dec_candidate x 3 of Some c \<Rightarrow> c | None \<Rightarrow> shortest_search x 4 13)))"
proof -
  have e: "(16::nat) = Suc (Suc (Suc 13))" "Suc 1 = 2" "Suc 2 = 3" "Suc 3 = 4" by simp_all
  show ?thesis by (simp only: e(1) shortest_search.simps e(2-))
qed

lemma strip_zeros_id:
  assumes "0 \<le> m" "m mod 10 \<noteq> 0"
  shows "rev (dropWhile (\<lambda>c. c = CHR ''0'') (rev (digits_of m))) = digits_of m"
proof -
  have d: "digit_char (nat (m mod 10)) \<noteq> CHR ''0''"
    using digit_props(3)[of "m mod 10"] assms by simp
  show ?thesis
  proof (cases "m < 10")
    case True
    then have "m mod 10 = m" using assms by simp
    with d True show ?thesis by (simp add: digits_of_lt10)
  next
    case False
    with d show ?thesis by (simp add: digits_of_ge10)
  qed
qed

lemma length_digits_of:
  "0 \<le> m \<Longrightarrow> m < 10 \<Longrightarrow> length (digits_of m) = 1"
  "10 \<le> m \<Longrightarrow> m < 100 \<Longrightarrow> length (digits_of m) = 2"
  "100 \<le> m \<Longrightarrow> m < 1000 \<Longrightarrow> length (digits_of m) = 3"
proof -
  show a: "length (digits_of m) = 1" if "0 \<le> m" "m < 10" for m
    using that by (simp add: digits_of_lt10)
  show b: "length (digits_of m) = 2" if "10 \<le> m" "m < 100" for m
  proof -
    have "0 \<le> m div 10" "m div 10 < 10" using that by simp_all
    from a[OF this] that show ?thesis by (simp add: digits_of_ge10)
  qed
  show "length (digits_of m) = 3" if "100 \<le> m" "m < 1000" for m
  proof -
    have "10 \<le> m div 10" "m div 10 < 100" using that by simp_all
    from b[OF this] that show ?thesis by (simp add: digits_of_ge10)
  qed
qed

lemma shortest_digits_int:
  assumes "1 \<le> n" "n < 1000"
  shows "\<exists>m e. shortest_digits (of_int n) = (digits_of m, int (length (digits_of m)) + int e)
           \<and> digits_of m @ replicate e (CHR ''0'') = digits_of n \<and> int (length (digits_of n)) \<le> 3"
proof -
  note dc = dec_candidate_int[OF assms]
  consider "n < 10" | "10 \<le> n" "n < 100" | "100 \<le> n"
    by linarith
  then show ?thesis
  proof cases
    case 1
    have i: "ilog10 (of_int n) = 0" using assms 1 by (simp add: ilog10_int declen_small)
    have "shortest_search (of_int n) 1 16 = (n, 0)"
    proof -
      have "dec_candidate (of_int n) 1 = Some (n, 0)" using dc[of 1 0] i by simp
      then show ?thesis unfolding shortest_search_3 by simp
    qed
    moreover have "n mod 10 \<noteq> 0" using assms 1 by simp
    ultimately have "shortest_digits (of_int n) = (digits_of n, int (length (digits_of n)) + int 0)"
      using assms by (simp add: shortest_digits_def strip_zeros_id Let_def)
    moreover have "int (length (digits_of n)) \<le> 3" using assms 1 by (simp add: length_digits_of)
    ultimately show ?thesis by (intro exI[of _ n] exI[of _ 0]) simp
  next
    case 2
    have i: "ilog10 (of_int n) = 1" using assms 2 by (simp add: ilog10_int declen_small)
    have l: "int (length (digits_of n)) \<le> 3" using 2 by (simp add: length_digits_of)
    show ?thesis
    proof (cases "10 dvd n")
      case True
      have "shortest_search (of_int n) 1 16 = (n div 10, 1)"
      proof -
        have "dec_candidate (of_int n) 1 = Some (n div 10, 1)" using dc[of 1 1] i True by simp
        then show ?thesis unfolding shortest_search_3 by simp
      qed
      moreover have "(n div 10) mod 10 \<noteq> 0" "0 \<le> n div 10" using 2 by simp_all
      ultimately have "shortest_digits (of_int n) =
           (digits_of (n div 10), int (length (digits_of (n div 10))) + int 1)"
        by (simp add: shortest_digits_def strip_zeros_id Let_def)
      moreover have "digits_of (n div 10) @ replicate 1 (CHR ''0'') = digits_of n"
        using True 2 by (simp add: digits_of_ge10[of n] digit_char_def)
      ultimately show ?thesis using l by (intro exI[of _ "n div 10"] exI[of _ 1]) simp
    next
      case False
      have "shortest_search (of_int n) 1 16 = (n, 0)"
      proof -
        have "dec_candidate (of_int n) 1 = None" using dc[of 1 1] i False by simp
        moreover have "dec_candidate (of_int n) 2 = Some (n, 0)" using dc[of 2 0] i by simp
        ultimately show ?thesis unfolding shortest_search_3 by simp
      qed
      moreover have "n mod 10 \<noteq> 0" using False by (simp add: dvd_eq_mod_eq_0)
      ultimately have "shortest_digits (of_int n) = (digits_of n, int (length (digits_of n)) + int 0)"
        using assms by (simp add: shortest_digits_def strip_zeros_id Let_def)
      then show ?thesis using l by (intro exI[of _ n] exI[of _ 0]) simp
    qed
  next
    case 3
    have i: "ilog10 (of_int n) = 2" using assms 3 by (simp add: ilog10_int declen_small)
    have l: "int (length (digits_of n)) \<le> 3" using 3 assms by (simp add: length_digits_of)
    show ?thesis
    proof (cases "100 dvd n")
      case True
      have "shortest_search (of_int n) 1 16 = (n div 100, 2)"
      proof -
        have "dec_candidate (of_int n) 1 = Some (n div 100, 2)" using dc[of 1 2] i True by simp
        then show ?thesis unfolding shortest_search_3 by simp
      qed
      moreover have "(n div 100) mod 10 \<noteq> 0" "0 \<le> n div 100" using 3 assms by simp_all
      ultimately have "shortest_digits (of_int n) =
           (digits_of (n div 100), int (length (digits_of (n div 100))) + int 2)"
        by (simp add: shortest_digits_def strip_zeros_id Let_def)
      moreover have "n div 10 div 10 = n div 100" "n mod 10 = 0" "n div 10 mod 10 = 0"
      proof -
        from True obtain k where k: "n = 100 * k" by (auto simp: dvd_def)
        have "n div 10 = 10 * k" unfolding k by simp
        then show "n div 10 div 10 = n div 100" "n mod 10 = 0" "n div 10 mod 10 = 0"
          unfolding k by simp_all
      qed
      then have "digits_of (n div 100) @ replicate 2 (CHR ''0'') = digits_of n"
        using 3 by (simp add: digits_of_ge10[of n] digits_of_ge10[of "n div 10"] digit_char_def
                      numeral_2_eq_2)
      ultimately show ?thesis using l by (intro exI[of _ "n div 100"] exI[of _ 2]) simp
    next
      case n100: False
      show ?thesis
      proof (cases "10 dvd n")
        case True
        have "shortest_search (of_int n) 1 16 = (n div 10, 1)"
        proof -
          have "dec_candidate (of_int n) 1 = None" using dc[of 1 2] i n100 by simp
          moreover have "dec_candidate (of_int n) 2 = Some (n div 10, 1)"
            using dc[of 2 1] i True by simp
          ultimately show ?thesis unfolding shortest_search_3 by simp
        qed
        moreover have "(n div 10) mod 10 \<noteq> 0"
        proof
          assume z: "(n div 10) mod 10 = 0"
          from True obtain k where k: "n = 10 * k" by (auto simp: dvd_def)
          from z have "k mod 10 = 0" unfolding k by simp
          then obtain j where "k = 10 * j" by (auto simp: mod_eq_0_iff_dvd dvd_def)
          with k have "n = 100 * j" by simp
          with n100 show False by simp
        qed
        moreover have "0 \<le> n div 10" using assms by simp
        ultimately have "shortest_digits (of_int n) =
             (digits_of (n div 10), int (length (digits_of (n div 10))) + int 1)"
          by (simp add: shortest_digits_def strip_zeros_id Let_def)
        moreover have "digits_of (n div 10) @ replicate 1 (CHR ''0'') = digits_of n"
          using True 3 by (simp add: digits_of_ge10[of n] digit_char_def)
        ultimately show ?thesis using l by (intro exI[of _ "n div 10"] exI[of _ 1]) simp
      next
        case False
        have "(10::int) dvd 100" by simp
        with False have "\<not> 100 dvd n" using dvd_trans by blast
        have "shortest_search (of_int n) 1 16 = (n, 0)"
        proof -
          have "dec_candidate (of_int n) 1 = None" using dc[of 1 2] i \<open>\<not> 100 dvd n\<close> by simp
          moreover have "dec_candidate (of_int n) 2 = None" using dc[of 2 1] i False by simp
          moreover have "dec_candidate (of_int n) 3 = Some (n, 0)" using dc[of 3 0] i by simp
          ultimately show ?thesis unfolding shortest_search_3 by simp
        qed
        moreover have "n mod 10 \<noteq> 0" using False by (simp add: dvd_eq_mod_eq_0)
        ultimately have "shortest_digits (of_int n) = (digits_of n, int (length (digits_of n)) + int 0)"
          using assms by (simp add: shortest_digits_def strip_zeros_id Let_def)
        then show ?thesis using l by (intro exI[of _ n] exI[of _ 0]) simp
      qed
    qed
  qed
qed

lemma FormatFloat_int:
  assumes "1 \<le> n" "n < 1000"
  shows "FormatFloat (of_int n) = digits_of n"
proof -
  from shortest_digits_int[OF assms] obtain m e where
    s: "shortest_digits (of_int n) = (digits_of m, int (length (digits_of m)) + int e)"
    and d: "digits_of m @ replicate e (CHR ''0'') = digits_of n"
    and l: "int (length (digits_of n)) \<le> 3" by blast
  have len: "length (digits_of n) = length (digits_of m) + e"
    by (simp flip: d)
  have pos: "0 < length (digits_of m)" by simp
  have x: "(of_int n :: rat) \<noteq> 0" "\<not> (of_int n :: rat) < 0" "\<bar>of_int n :: rat\<bar> = of_int n"
    using assms by simp_all
  have f: "fmtF (digits_of m) (int (length (digits_of m)) + int e) = digits_of n"
    using pos d by (simp add: fmtF_def nat_add_distrib del: length_greater_0_conv)
  have "FormatFloat (of_int n) = fmtF (digits_of m) (int (length (digits_of m)) + int e)"
    using assms l len by (simp add: FormatFloat_def s)
  with f show ?thesis by simp
qed

section \<open>Seconds of a whole number of seconds\<close>

lemma Trunc_Minutes_whole:
  assumes "0 \<le> d" "d < 2 ^ 62" "1000000000 dvd d"
  shows "math_Trunc (time_Minutes d) = of_int (d div Minute)"
proof -
  have M: "Minute = 60000000000" by (simp add: unit_defs)
  have i: "is_int64 d" using assms by (simp add: is_int64_def)
  from assms(3) obtain s where s: "d = 1000000000 * s" by (auto simp: dvd_def)
  have s0: "0 \<le> s" using assms(1) s by simp
  define m where "m = d div Minute"
  define k where "k = s mod 60"
  have mk: "d mod Minute = 1000000000 * k" unfolding M s k_def
    using mult_mod_right[of 1000000000 s 60] by simp
  have m: "0 \<le> m" "m \<le> 76861433" using assms unfolding m_def M by (simp_all add: pos_imp_zdiv_nonneg_iff) linarith?
  have k: "0 \<le> k" "k \<le> 59" unfolding k_def by simp_all
  define x :: rat where "x = of_int k / 60"
  have xx: "(of_int (d mod Minute) :: rat) / 60000000000 = x" unfolding mk x_def by simp
  have x0: "0 \<le> x" using k by (simp add: x_def)
  have "(of_int k :: rat) \<le> 59" using k(2) by (metis of_int_le_iff of_int_numeral)
  then have x1: "x \<le> 59 / 60" by (simp add: x_def)
  have pw: "(2::rat) powi (- 54) = 1 / 18014398509481984" "(2::rat) powi (27 - 54) = 1 / 134217728"
    by (simp_all add: power_int_minus_divide)
  have a: "x + 2 powi (- 54) + 2 powi (27 - 54) < 1" using x1 unfolding pw by simp
  have b: "x = 0 \<or> 2 powi (- 54) + 2 powi (27 - 54) \<le> x"
  proof (cases "k = 0")
    case True then show ?thesis by (simp add: x_def)
  next
    case False
    then have "1 \<le> k" using k by simp
    then have "(1::rat) \<le> of_int k" by (metis of_int_1 of_int_le_iff)
    then have "1 / 60 \<le> x" by (simp add: x_def)
    then show ?thesis unfolding pw by simp
  qed
  have "(of_int m :: rat) \<le> 76861433" using m(2) by (metis of_int_le_iff of_int_numeral)
  then have c: "of_int m + 1 < (2::rat) powi 27" by (simp add: power_int_def)
  have "trunc_int (fl (of_int m + fl x)) = m"
    using m by (intro trunc_sum[OF _ _ c _ x0 a b]) auto
  then show ?thesis
    unfolding math_Trunc_def time_Minutes_eq[OF assms(1) i] xx m_def by simp
qed

lemma Seconds_whole:
  assumes "0 \<le> d" "d < 2 ^ 62" "1000000000 dvd d"
  shows "Seconds d = of_int ((d div Second) mod 60)"
proof -
  have M: "Minute = 60000000000" and S: "Second = 1000000000" by (simp_all add: unit_defs)
  have i: "is_int64 d" using assms by (simp add: is_int64_def)
  from assms(3) obtain s where s: "d = 1000000000 * s" by (auto simp: dvd_def)
  have s0: "0 \<le> s" using assms(1) s by simp
  have mk: "d mod Minute = 1000000000 * (s mod 60)" unfolding M s
    using mult_mod_right[of 1000000000 s 60] by simp
  have ds: "d div Second = s" unfolding S s by simp
  \<comment> \<open>the nanoseconds are \<open>2 ^ 9\<close> times an integer below \<open>2 ^ 53\<close>\<close>
  have d9: "d = (1953125 * s) * 2 ^ 9" unfolding s by simp
  have "1953125 * s < 2 ^ 53" using assms(2) unfolding s by simp
  then have "\<bar>1953125 * s\<bar> < 2 ^ 53" using s0 by simp
  from fl_of_int_shift[OF this, of 9] have exd: "fl (of_int d) = of_int d" unfolding d9 by simp
  define m where "m = d div Minute"
  have m: "0 \<le> m" "m \<le> 76861433" using assms unfolding m_def M by (simp_all add: pos_imp_zdiv_nonneg_iff) linarith?
  have m10: "m * Minute = (m * 58593750) * 2 ^ 10" unfolding M by simp
  have "\<bar>m * 58593750\<bar> < 2 ^ 53" using m by simp
  from fl_of_int_shift[OF this, of 10]
  have "fl (of_int (m * Minute)) = of_int (m * Minute)" unfolding m10 .
  then have exm: "fl (of_int (d div Minute * Minute)) = of_int (d div Minute * Minute)"
    unfolding m_def .
  have "Seconds d = fl (of_int (d mod Minute) / 1000000000)"
    by (rule Seconds_from_trunc[OF assms(1) i exd exm Trunc_Minutes_whole[OF assms]])
  also have "(of_int (d mod Minute) :: rat) / 1000000000 = of_int (s mod 60)"
    unfolding mk by simp
  also have "fl (of_int (s mod 60)) = of_int (s mod 60)"
    by (intro fl_of_int) (simp add: abs_if, smt (verit) pos_mod_bound pos_mod_sign)
  finally show ?thesis by (simp add: ds)
qed

section \<open>The text of a whole number of seconds\<close>

lemma String_unfold:
  "String d = ''P'' @
     (if IsZero d then ''0D''
      else if Weeks d \<noteq> 0 \<and> IsWeeksOnly d then FormatFloat (Weeks d) @ ''W''
      else (if Years d \<noteq> 0 then FormatFloat (Years d) @ ''Y'' else [])
         @ (if Days d \<noteq> 0 then FormatFloat (Days d) @ ''D'' else [])
         @ (if HasTimePart d
            then ''T'' @ (if Hours d \<noteq> 0 then FormatFloat (Hours d) @ ''H'' else [])
                 @ (if Minutes d \<noteq> 0 then FormatFloat (Minutes d) @ ''M'' else [])
                 @ (if Seconds d \<noteq> 0 then FormatFloat (Seconds d) @ ''S'' else [])
            else []))"
  by (simp add: String_def tmpl_def part_def call_method_def Let_def)

lemma print_field:
  assumes "0 \<le> n" "n < 1000"
  shows "(if (of_int n :: rat) \<noteq> 0 then FormatFloat (of_int n) @ [c] else []) = optf n c"
  using FormatFloat_int[of n] assms by (auto simp: optf_def)

lemma int64_of_float64_int: "is_int64 n \<Longrightarrow> int64_of_float64 (of_int n) = n"
  by (simp add: int64_of_float64_def trunc_int_def)

lemma String_whole:
  assumes "0 < d" "d < 2 ^ 62" "1000000000 dvd d"
  defines "D \<equiv> d div Day mod 365"
  shows "String d = CHR ''P'' #
     (if D \<noteq> 0 \<and> D mod 7 = 0 \<and> D div 7 * Week = d then digits_of (D div 7) @ ''W''
      else body (d div Year) D (d div Hour mod 24) (d div Minute mod 60) (d div Second mod 60))"
proof -
  have i: "is_int64 d" using assms by (simp add: is_int64_def)
  have d0: "0 \<le> d" using assms by simp
  have u: "0 < Year" "0 < Day" "0 < Hour" "0 < Minute" "0 < Second" by (simp_all add: unit_defs)
  have q: "0 \<le> d div Year" "0 \<le> d div Day" "0 \<le> d div Hour" "0 \<le> d div Minute" "0 \<le> d div Second"
    using d0 u by (simp_all add: pos_imp_zdiv_nonneg_iff)
  have Y: "Years d = of_int (d div Year)" using i d0 u by (simp add: Years_eq sdiv_nonneg)
  have Dd: "Days d = of_int D" using i d0 u q by (simp add: Days_eq sdiv_nonneg smod_nonneg D_def)
  have H: "Hours d = of_int (d div Hour mod 24)"
    using i d0 u q by (simp add: Hours_eq sdiv_nonneg smod_nonneg)
  have M: "Minutes d = of_int (d div Minute mod 60)"
    using i d0 u q by (simp add: Minutes_eq sdiv_nonneg smod_nonneg)
  have S: "Seconds d = of_int (d div Second mod 60)" by (rule Seconds_whole[OF d0 assms(2,3)])
  have yb: "d div Year < 1000"
  proof -
    have "d div Year \<le> 2 ^ 62 div Year" using assms(2) u by (intro zdiv_mono1) simp_all
    then show ?thesis by (simp add: unit_defs)
  qed
  have Db: "0 \<le> D" "D < 365" by (simp_all add: D_def)
  have hb: "0 \<le> d div Hour mod 24" "d div Hour mod 24 < 24" by simp_all
  have mb: "0 \<le> d div Minute mod 60" "d div Minute mod 60 < 60" by simp_all
  have sb: "0 \<le> d div Second mod 60" "d div Second mod 60 < 60" by simp_all
  have W: "Weeks d = (if 0 < D mod 7 then 0 else of_int (D div 7))"
  proof (cases "0 < D mod 7")
    case True
    then show ?thesis using i d0 u q by (simp add: Weeks_eq sdiv_nonneg smod_nonneg D_def)
  next
    case False
    then have "D mod 7 = 0" using pos_mod_sign[of 7 D] by simp
    then obtain w where w: "D = 7 * w" by (auto simp: mod_eq_0_iff_dvd dvd_def)
    have "\<bar>w\<bar> < 2 ^ 53" using Db w by simp
    then have "fl (of_int w) = of_int w" by (rule fl_of_int)
    then have "fl (of_int D / 7) = of_int (D div 7)" by (simp add: w)
    with False show ?thesis using i d0 u q by (simp add: Weeks_eq sdiv_nonneg smod_nonneg D_def)
  qed
  have wb: "0 \<le> D div 7" "D div 7 < 1000" using Db by simp_all
  have WO: "IsWeeksOnly d = (D div 7 * Week = d)" if "D mod 7 = 0"
  proof -
    have w: "Weeks d = of_int (D div 7)" using that W by simp
    have "is_int64 (D div 7)" using wb by (simp add: is_int64_def)
    then have c: "int64_of_float64 (of_int (D div 7)) = D div 7" by (rule int64_of_float64_int)
    have "is_int64 (D div 7 * Week)" using wb by (simp add: is_int64_def unit_defs)
    then show ?thesis by (simp add: IsWeeksOnly_def w c mul64_def wrap64_id)
  qed
  have wk: "(Weeks d \<noteq> 0 \<and> IsWeeksOnly d) = (D \<noteq> 0 \<and> D mod 7 = 0 \<and> D div 7 * Week = d)"
  proof (cases "D mod 7 = 0")
    case True
    then have "(D div 7 \<noteq> 0) = (D \<noteq> 0)" by auto
    with True W WO show ?thesis by simp
  next
    case False
    then have "0 < D mod 7" using pos_mod_sign[of 7 D] by simp
    with False W show ?thesis by simp
  qed
  have wf: "FormatFloat (Weeks d) = digits_of (D div 7)" if "D \<noteq> 0" "D mod 7 = 0"
  proof -
    have "1 \<le> D div 7" using that Db by auto
    with W that wb show ?thesis by (simp add: FormatFloat_int)
  qed
  have T: "HasTimePart d =
      (d div Hour mod 24 \<noteq> 0 \<or> d div Minute mod 60 \<noteq> 0 \<or> d div Second mod 60 \<noteq> 0)"
    by (simp add: HasTimePart_def H M S)
  have z: "\<not> IsZero d" using assms by (simp add: IsZero_def)
  show ?thesis
    unfolding String_unfold wk T Y Dd H M S body_def
      print_field[OF q(1) yb] print_field[OF Db(1), of "CHR ''D''"]
    using z wf print_field[OF Db(1), of "CHR ''D''"] print_field[OF hb(1), of "CHR ''H''"]
      print_field[OF mb(1), of "CHR ''M''"] print_field[OF sb(1), of "CHR ''S''"] Db hb mb sb
    by (simp add: )
qed

section \<open>Matching the canonical text\<close>

lemma scan_digits:
  assumes "0 \<le> n" "x \<notin> set cls" "cls = digit_class \<or> cls = digit_dot_class"
  shows "takeWhile (\<lambda>c. c \<in> set cls) (digits_of n @ x # rest) = digits_of n"
    and "dropWhile (\<lambda>c. c \<in> set cls) (digits_of n @ x # rest) = x # rest"
    and "lead cls (digits_of n @ x # rest) = Some x"
proof -
  have a: "\<And>c. c \<in> set (digits_of n) \<Longrightarrow> c \<in> set cls"
    using digits_of_digits[OF assms(1)] assms(3) by auto
  show t: "takeWhile (\<lambda>c. c \<in> set cls) (digits_of n @ x # rest) = digits_of n"
    using a assms(2) by (simp add: takeWhile_append2)
  show d: "dropWhile (\<lambda>c. c \<in> set cls) (digits_of n @ x # rest) = x # rest"
    using a assms(2) by (simp add: dropWhile_append2)
  show "lead cls (digits_of n @ x # rest) = Some x"
    unfolding lead_def t d by simp
qed

lemma fstep_hit:
  assumes "0 \<le> n" "x \<notin> set cls" "cls = digit_class \<or> cls = digit_dot_class"
  shows "fstep i cls x (digits_of n @ x # rest, caps) =
           (rest, caps(i + 1 := digits_of n, i := digits_of n @ [x]))"
  using scan_digits[OF assms] by (simp add: fstep_def)

lemma fstep_other:
  assumes "0 \<le> n" "y \<notin> set cls" "cls = digit_class \<or> cls = digit_dot_class" "y \<noteq> x"
  shows "fstep i cls x (digits_of n @ y # rest, caps) = (digits_of n @ y # rest, caps)"
  using scan_digits[OF assms(1-3)] assms(4) by (simp add: fstep_def)

lemma fstep_nondigit: "y \<notin> set cls \<Longrightarrow> fstep i cls x (y # rest, caps) = (y # rest, caps)"
  by (simp add: fstep_def lead_def)

lemma fstep_nil: "fstep i cls x ([], caps) = ([], caps)"
  by (simp add: fstep_def)

lemma class_facts2:
  "CHR ''T'' \<notin> set digit_dot_class" "CHR ''H'' \<notin> set digit_dot_class"
  "CHR ''M'' \<notin> set digit_dot_class" "CHR ''D'' \<notin> set digit_dot_class"
  "CHR ''Y'' \<notin> set digit_dot_class" "CHR ''S'' \<notin> set digit_class"
  "CHR ''W'' \<notin> set digit_dot_class" "CHR ''P'' \<notin> set digit_dot_class"
  by (simp_all add: digit_dot_class_def digit_class_def)

lemmas fsteps = fstep_hit fstep_other fstep_nondigit fstep_nil class_facts class_facts2

lemma time_part:
  assumes "0 \<le> H" "0 \<le> M" "0 \<le> S"
  defines "tp \<equiv> (if H \<noteq> 0 \<or> M \<noteq> 0 \<or> S \<noteq> 0
      then CHR ''T'' # optf H CHR ''H'' @ optf M CHR ''M'' @ optf S CHR ''S'' else [])"
  assumes c: "caps 9 = []" "caps 11 = []" "caps 13 = []"
  shows "\<exists>caps'. tstep (tp, caps) = ([], caps') \<and>
           caps' 9 = optd H \<and> caps' 11 = optd M \<and> caps' 13 = optd S \<and>
           caps' 2 = caps 2 \<and> caps' 4 = caps 4 \<and> caps' 6 = caps 6"
  using assms(1-3) c unfolding tp_def tstep_def optf_def optd_def
  by (simp add: fsteps)

lemma date_part:
  assumes "0 \<le> Y" "0 \<le> D" "tp = [] \<or> (\<exists>t. tp = CHR ''T'' # t)"
  shows "\<exists>caps'. fstep 5 digit_class CHR ''D'' (fstep 3 digit_class CHR ''M''
           (fstep 1 digit_class CHR ''Y'' (optf Y CHR ''Y'' @ optf D CHR ''D'' @ tp, \<lambda>i. []))) =
           (tp, caps') \<and>
         caps' 2 = optd Y \<and> caps' 4 = [] \<and> caps' 6 = optd D \<and>
         caps' 9 = [] \<and> caps' 11 = [] \<and> caps' 13 = []"
  using assms unfolding optf_def optd_def
  by (auto simp: fsteps)

lemma names_full:
  "SubexpNames full =
     [[], [], ''year'', [], ''month'', [], ''day'', [], [], ''hour'', [], ''minute'', [], ''second'']"
  by (simp add: SubexpNames_def full_def field_def)

lemma upt14: "[0..<14] = [0, 1, 2, 3, 4, 5, 6, 7, 8, 9, 10, 11, 12, 13::nat]"
  by (simp add: upt_conv_Cons)

lemma parse_loop_filter:
  "parse_loop xs d = parse_loop (filter (\<lambda>(i, name, part). i \<noteq> 0 \<and> name \<noteq> []) xs) d"
proof (induction xs arbitrary: d)
  case Nil
  show ?case by simp
next
  case (Cons a xs)
  obtain i name part where a: "a = (i, name, part)" by (cases a)
  show ?case
  proof (cases "i \<noteq> 0 \<and> name \<noteq> []")
    case True
    then show ?thesis unfolding a using Cons.IH by (simp cong: sum.case_cong)
  next
    case False
    then show ?thesis unfolding a using Cons.IH[of d] by auto
  qed
qed

lemma parse_match_full:
  "parse_match full (map f [0..<14]) =
     parse_loop [(2, ''year'', f 2), (4, ''month'', f 4), (6, ''day'', f 6),
                 (9, ''hour'', f 9), (11, ''minute'', f 11), (13, ''second'', f 13)] 0"
proof -
  have len: "length [[], [], ''year'', [], ''month'', [], ''day'', [], [], ''hour'', [],
                     ''minute'', [], ''second''] = 14" by simp
  show ?thesis unfolding parse_match_def names_full len upt14
    by (subst parse_loop_filter) simp
qed

lemma Find_full_canonical:
  assumes "0 \<le> Y" "0 \<le> D" "0 \<le> H" "0 \<le> M" "0 \<le> S"
  shows "\<exists>f. FindStringSubmatch full (CHR ''P'' # body Y D H M S) = Some (map f [0..<14]) \<and>
           f 2 = optd Y \<and> f 4 = [] \<and> f 6 = optd D \<and> f 9 = optd H \<and> f 11 = optd M \<and>
           f 13 = optd S"
proof -
  define tp where "tp = (if H \<noteq> 0 \<or> M \<noteq> 0 \<or> S \<noteq> 0
      then CHR ''T'' # optf H CHR ''H'' @ optf M CHR ''M'' @ optf S CHR ''S'' else [])"
  have b: "body Y D H M S = optf Y CHR ''Y'' @ optf D CHR ''D'' @ tp"
    by (simp add: body_def tp_def)
  have "tp = [] \<or> (\<exists>t. tp = CHR ''T'' # t)" by (simp add: tp_def)
  from date_part[OF assms(1,2) this] obtain c1 where
    c1: "fstep 5 digit_class CHR ''D'' (fstep 3 digit_class CHR ''M''
           (fstep 1 digit_class CHR ''Y'' (body Y D H M S, \<lambda>i. []))) = (tp, c1)"
      "c1 2 = optd Y" "c1 4 = []" "c1 6 = optd D" "c1 9 = []" "c1 11 = []" "c1 13 = []"
    unfolding b by blast
  from time_part[OF assms(3-5) c1(5-7)] obtain c2 where
    c2: "tstep (tp, c1) = ([], c2)" "c2 9 = optd H" "c2 11 = optd M" "c2 13 = optd S"
      "c2 2 = c1 2" "c2 4 = c1 4" "c2 6 = c1 6"
    unfolding tp_def by blast
  let ?f = "c2(0 := take (length (CHR ''P'' # body Y D H M S) - length ([]::string))
                  (CHR ''P'' # body Y D H M S))"
  have "first full (CHR ''P'' # body Y D H M S, \<lambda>i. []) = Some ([], c2)"
    unfolding first_full using c1(1) c2(1) by simp
  then have "FindStringSubmatch full (CHR ''P'' # body Y D H M S) = Some (map ?f [0..<14])"
    unfolding Find_unfold[of _ "CHR ''P'' # body Y D H M S"] names_length by simp
  moreover have "?f 2 = optd Y" "?f 4 = []" "?f 6 = optd D" "?f 9 = optd H" "?f 11 = optd M"
    "?f 13 = optd S" using c1 c2 by simp_all
  ultimately show ?thesis by blast
qed

section \<open>Accumulating the fields\<close>

lemma is_int64_I:
  "- 9223372036854775808 \<le> i \<Longrightarrow> i < 9223372036854775808 \<Longrightarrow> is_int64 i"
  by (simp add: is_int64_def)

lemma mul_add_small:
  assumes "0 \<le> d" "0 \<le> n" "0 \<le> u" "d + n * u < 2 ^ 63"
  shows "add64 d (mul64 (int64_of_float64 (of_int n)) u) = d + n * u"
proof -
  have nu: "0 \<le> n * u" using assms by simp
  have b: "d + n * u < 9223372036854775808" using assms(4) by simp
  have i1: "is_int64 (n * u)" using assms(1) nu b by (intro is_int64_I) linarith+
  have i2: "is_int64 (d + n * u)" using assms(1) nu b by (intro is_int64_I) linarith+
  show ?thesis
  proof (cases "u = 0")
    case True
    then show ?thesis using assms by (simp add: add64_def mul64_def wrap64_def)
  next
    case False
    then have "1 \<le> u" using assms by simp
    then have "n * 1 \<le> n * u" using assms by (intro mult_left_mono) auto
    then have "is_int64 n" using assms(1,2) nu b by (intro is_int64_I) linarith+
    then show ?thesis using i1 i2
      by (simp add: add64_def mul64_def wrap64_id int64_of_float64_int)
  qed
qed

lemma add_field_simps:
  "add_field ''year'' v d = Inr (add64 d (mul64 (int64_of_float64 v) Year))"
  "add_field ''day'' v d = Inr (add64 d (mul64 (int64_of_float64 v) Day))"
  "add_field ''hour'' v d = Inr (add64 d (mul64 (int64_of_float64 v) Hour))"
  "add_field ''minute'' v d = Inr (add64 d (mul64 (int64_of_float64 v) Minute))"
  "add_field ''week'' v d = Inr (add64 d (mul64 (int64_of_float64 v) Week))"
  by (simp_all add: add_field_def)

lemma add_field_second_int:
  "add_field ''second'' (of_int n) d = Inr (add64 d (mul64 (int64_of_float64 (of_int n)) Second))"
proof -
  have t: "math_Trunc (of_int n) = of_int n" by (simp add: math_Trunc_def trunc_int_def)
  have z: "int64_of_float64 0 = 0" using int64_of_float64_int[of 0] by (simp add: is_int64_def)
  have m: "mul64 0 x = 0" for x by (simp add: mul64_def wrap64_def)
  have a: "add64 (add64 x y) 0 = add64 x y" for x y
    by (simp add: add64_def wrap64_wrap64)
  show ?thesis by (simp add: add_field_def t fl_0 z m a Let_def math_Trunc_def trunc_int_def)
qed

lemma parse_opt_field:
  assumes "0 \<le> n" "n < 1000" "0 \<le> d" "0 \<le> u" "d + n * u < 2 ^ 63" "i \<noteq> 0" "name \<noteq> []"
    and "add_field name (of_int n) d = Inr (add64 d (mul64 (int64_of_float64 (of_int n)) u))"
  shows "parse_loop ((i, name, optd n) # rest) d = parse_loop rest (d + n * u)"
proof (cases "n = 0")
  case True
  then show ?thesis by (simp add: optd_def)
next
  case False
  have "ParseFloat (digits_of n) = Inr (of_int n)" using assms(1,2) by (intro ParseFloat_digits) auto
  then show ?thesis using False assms(6-8) mul_add_small[OF assms(3,1,4,5)]
    by (simp add: optd_def)
qed

lemma parse_canonical_fields:
  assumes "0 \<le> Y" "Y < 1000" "0 \<le> D" "D < 1000" "0 \<le> H" "H < 1000" "0 \<le> M" "M < 1000"
    "0 \<le> S" "S < 1000"
    and "Y * Year + D * Day + H * Hour + M * Minute + S * Second < 2 ^ 63"
  shows "parse_loop [(2, ''year'', optd Y), (4, ''month'', []), (6, ''day'', optd D),
                     (9, ''hour'', optd H), (11, ''minute'', optd M), (13, ''second'', optd S)] 0
         = Inr (Y * Year + D * Day + H * Hour + M * Minute + S * Second)"
proof -
  have u: "0 \<le> Year" "0 \<le> Day" "0 \<le> Hour" "0 \<le> Minute" "0 \<le> Second" by (simp_all add: unit_defs)
  have p: "0 \<le> Y * Year" "0 \<le> D * Day" "0 \<le> H * Hour" "0 \<le> M * Minute" "0 \<le> S * Second"
    using assms u by simp_all
  have 1: "parse_loop ((2, ''year'', optd Y) # r) 0 = parse_loop r (Y * Year)" for r
    using parse_opt_field[OF assms(1,2) _ u(1), of 0 2 "''year''" r] p assms(11)
    by (simp add: add_field_simps)
  have 2: "parse_loop ((6, ''day'', optd D) # r) (Y * Year) = parse_loop r (Y * Year + D * Day)" for r
    using parse_opt_field[OF assms(3,4) p(1) u(2), of 6 "''day''" r] p assms(11)
    by (simp add: add_field_simps)
  have 3: "parse_loop ((9, ''hour'', optd H) # r) (Y * Year + D * Day)
           = parse_loop r (Y * Year + D * Day + H * Hour)" for r
    using parse_opt_field[OF assms(5,6) _ u(3), of "Y * Year + D * Day" 9 "''hour''" r] p assms(11)
    by (simp add: add_field_simps)
  have 4: "parse_loop ((11, ''minute'', optd M) # r) (Y * Year + D * Day + H * Hour)
           = parse_loop r (Y * Year + D * Day + H * Hour + M * Minute)" for r
    using parse_opt_field[OF assms(7,8) _ u(4), of "Y * Year + D * Day + H * Hour" 11 "''minute''" r]
      p assms(11)
    by (simp add: add_field_simps)
  have 5: "parse_loop ((13, ''second'', optd S) # r) (Y * Year + D * Day + H * Hour + M * Minute)
           = parse_loop r (Y * Year + D * Day + H * Hour + M * Minute + S * Second)" for r
    using parse_opt_field[OF assms(9,10) _ u(5),
        of "Y * Year + D * Day + H * Hour + M * Minute" 13 "''second''" r] p assms(11)
    by (simp add: add_field_second_int)
  have m: "parse_loop ((4, ''month'', []) # r) d = parse_loop r d" for r d by simp
  show ?thesis unfolding 1 m 2 3 4 5 by simp
qed

section \<open>Where the week pattern matches\<close>










section \<open>The value of a week count\<close>







section \<open>The accessors and the sign of the magnitude\<close>




section \<open>The BadFormat error\<close>

text \<open>
  C2: \<open>ParseString\<close> fails with \<open>ErrBadFormat\<close> exactly when the input matches neither
  pattern or matches with zero captured designators. The code does so for \<open>garbage\<close>
  and for the empty string, but not for a match with zero designators: \<open>P\<close>
  and \<open>Pizza\<close> match the full pattern with every group empty, and \<open>ParseString\<close>
  returns the zero Duration and no error for them, although the package documents
  \<open>ErrBadFormat\<close> as the error of an invalid ISO8601 string and requires at least
  one element in a duration. By \<open>ParseString_bad_iff\<close> the only inputs it rejects
  with \<open>ErrBadFormat\<close> are those without a character \<open>P\<close>.
\<close>

theorem C2_zero_designators_accepted:
  "ParseString ''garbage'' = Inl ErrBadFormat \<and>
   ParseString [] = Inl ErrBadFormat \<and>
   FindStringSubmatch full ''P'' = Some [''P'', [], [], [], [], [], [], [], [], [], [], [], [], []] \<and>
   ParseString ''P'' = Inr 0 \<and>
   FindStringSubmatch full ''Pizza'' =
     Some [''P'', [], [], [], [], [], [], [], [], [], [], [], [], []] \<and>
   ParseString ''Pizza'' = Inr 0"
  by code_simp

section \<open>The week form\<close>




section \<open>UnmarshalJSON\<close>

text \<open>
  C7 (atomic on failure): for every receiver \<open>d\<close> and every input, when the decoding
  of the JSON string or the parse of the decoded text fails, \<open>UnmarshalJSON\<close> returns
  that error and the receiver is unchanged; when both succeed it returns no error and the
  receiver holds the parsed magnitude.
\<close>

theorem C7_unmarshal_atomic:
  "(\<forall>e. json_Decode data = Inl e \<longrightarrow> UnmarshalJSON d data = (Some (JSONError e), d)) \<and>
   (\<forall>s e. json_Decode data = Inr s \<and> ParseString s = Inl e \<longrightarrow>
            UnmarshalJSON d data = (Some e, d)) \<and>
   (\<forall>s t. json_Decode data = Inr s \<and> ParseString s = Inr t \<longrightarrow>
            UnmarshalJSON d data = (None, t)) \<and>
   (fst (UnmarshalJSON d data) \<noteq> None \<longrightarrow> snd (UnmarshalJSON d data) = d)"
  by (auto simp: UnmarshalJSON_def split: sum.splits)

theorem C7_unmarshal_atomic_witness:
  "json_Decode ''12'' = Inl JSONNotAString \<and>
   UnmarshalJSON 5 ''12'' = (Some (JSONError JSONNotAString), 5) \<and>
   json_Decode (CHR 0x22 # ''xyz'' @ [CHR 0x22]) = Inr ''xyz'' \<and>
   ParseString ''xyz'' = Inl ErrBadFormat \<and>
   UnmarshalJSON 5 (CHR 0x22 # ''xyz'' @ [CHR 0x22]) = (Some ErrBadFormat, 5) \<and>
   json_Decode (CHR 0x22 # ''P1D'' @ [CHR 0x22]) = Inr ''P1D'' \<and>
   ParseString ''P1D'' = Inr Day \<and>
   UnmarshalJSON 5 (CHR 0x22 # ''P1D'' @ [CHR 0x22]) = (None, Day)"
proof -
  have a: "json_Decode ''12'' = Inl JSONNotAString" by code_simp
  have b: "json_Decode (CHR 0x22 # ''xyz'' @ [CHR 0x22]) = Inr ''xyz''" by code_simp
  have c: "ParseString ''xyz'' = Inl ErrBadFormat" by code_simp
  have d: "json_Decode (CHR 0x22 # ''P1D'' @ [CHR 0x22]) = Inr ''P1D''" by code_simp
  have e: "ParseString ''P1D'' = Inr Day" by code_simp
  from C7_unmarshal_atomic[of "''12''" 5] a
  have 1: "UnmarshalJSON 5 ''12'' = (Some (JSONError JSONNotAString), 5)" by blast
  from C7_unmarshal_atomic[of "CHR 0x22 # ''xyz'' @ [CHR 0x22]" 5] b c
  have 2: "UnmarshalJSON 5 (CHR 0x22 # ''xyz'' @ [CHR 0x22]) = (Some ErrBadFormat, 5)" by blast
  from C7_unmarshal_atomic[of "CHR 0x22 # ''P1D'' @ [CHR 0x22]" 5] d e
  have 3: "UnmarshalJSON 5 (CHR 0x22 # ''P1D'' @ [CHR 0x22]) = (None, Day)" by blast
  from a b c d e 1 2 3 show ?thesis by blast
qed

section \<open>Concrete runs of the parser and the formatter\<close>

text \<open>
  C4 (zero identity): \<open>ParseString("P0D")\<close> succeeds with a Duration for which
  \<open>IsZero\<close> holds, and the Duration of magnitude 0 is formatted as exactly \<open>P0D\<close>.
\<close>

theorem C4_zero_identity:
  "ParseString ''P0D'' = Inr 0 \<and> IsZero 0 \<and> String 0 = ''P0D''"
  by code_simp

text \<open>
  C10 (substring matching): inputs outside the grammar are accepted. A bare \<open>P\<close> with
  no designator parses to the zero Duration, and \<open>xxP1Dyy\<close> parses to one day: the
  Duration is built from the first matched substring \<open>P1D\<close> and the text around it is
  ignored.
\<close>

theorem C10_substring_matching:
  "ParseString ''P'' = Inr 0 \<and>
   ParseString ''xxP1Dyy'' = Inr Day \<and>
   ParseString ''P1Dyy'' = Inr Day \<and>
   FindStringSubmatch full ''xxP1Dyy'' =
     Some [''P1D'', [], [], [], [], ''1D'', ''1'', [], [], [], [], [], [], []]"
  by code_simp

end
